theory Spec2Isabelle
  imports Main
begin

section \<open>The Image class\<close>

text \<open>
  The exceptions of \<^verbatim>\<open>findLargestConnectedComponent.cpp\<close> as values:
  \<^verbatim>\<open>std::invalid_argument\<close> and \<^verbatim>\<open>std::out_of_range\<close> are thrown by the class itself,
  \<^verbatim>\<open>std::length_error\<close> by \<^verbatim>\<open>std::vector\<close> when asked for more than \<^verbatim>\<open>max_size()\<close>
  elements. \<open>UndefinedBehaviour\<close> stands for an unchecked access outside an array
  (\<^verbatim>\<open>data_[i]\<close> or \<^verbatim>\<open>countForPixel[i]\<close>), about which C++ promises nothing.
\<close>

datatype error = InvalidArgument | OutOfRange | LengthError | UndefinedBehaviour

text \<open>The private members \<^verbatim>\<open>rows_\<close>, \<^verbatim>\<open>cols_\<close> and \<^verbatim>\<open>data_\<close> are the fields
  \<open>rows_of\<close>, \<open>cols_of\<close> and \<open>data_of\<close>.\<close>

record Image =
  rows_of :: int
  cols_of :: int
  data_of :: "int list"

text \<open>
  \<^verbatim>\<open>int\<close> is the 32-bit signed type; \<open>int_range\<close> is its range. The products
  \<^verbatim>\<open>rows * cols\<close> of the constructors are computed in that type: \<open>int32\<close> is the value the
  compiled program keeps, the low 32 bits read as a signed number (when the product
  does not fit, C++ itself defines no result). \<^verbatim>\<open>static_cast<size_t>\<close> of an \<^verbatim>\<open>int\<close> is
  reduction modulo \<open>2 ^ 64\<close>, and \<open>vector_max_size\<close> is
  \<^verbatim>\<open>std::vector<int>::max_size()\<close> on such a platform. Coordinates and counts
  are modelled by \<open>int\<close> without wrap-around: in a scan of an image that a constructor
  has built they stay below the number of cells, which is less than \<open>2 ^ 31\<close>.
\<close>

definition int_range :: "int \<Rightarrow> bool" where
  "int_range x = (- (2 ^ 31) \<le> x \<and> x < 2 ^ 31)"

definition int32 :: "int \<Rightarrow> int" where
  "int32 x = (x + 2 ^ 31) mod 2 ^ 32 - 2 ^ 31"

definition size_t_of_int :: "int \<Rightarrow> nat" where
  "size_t_of_int x = nat (x mod 2 ^ 64)"

definition vector_max_size :: nat where
  "vector_max_size = 2 ^ 61 - 1"

text \<open>\<^verbatim>\<open>Image(int rows, int cols) : rows_(rows), cols_(cols), data_(rows * cols, 0) {}\<close>\<close>

definition Image2 :: "int \<Rightarrow> int \<Rightarrow> error + Image" where
  "Image2 rows cols =
     (let n = size_t_of_int (int32 (rows * cols))
      in if n > vector_max_size then Inl LengthError
         else Inr \<lparr>rows_of = rows, cols_of = cols, data_of = replicate n 0\<rparr>)"

text \<open>\<^verbatim>\<open>Image(int rows, int cols, const std::vector<int>& initial_data)\<close>\<close>

definition Image3 :: "int \<Rightarrow> int \<Rightarrow> int list \<Rightarrow> error + Image" where
  "Image3 rows cols initial_data =
     (if length initial_data \<noteq> size_t_of_int (int32 (rows * cols)) then Inl InvalidArgument
      else Inr \<lparr>rows_of = rows, cols_of = cols, data_of = initial_data\<rparr>)"

text \<open>
  \<^verbatim>\<open>int& At(int row, int col)\<close>: the reference returned is the position
  \<^verbatim>\<open>row * cols_ + col\<close> of \<^verbatim>\<open>data_\<close>. Both overloads have the same body.
\<close>

definition At :: "Image \<Rightarrow> int \<Rightarrow> int \<Rightarrow> error + nat" where
  "At img row col =
     (if row < 0 \<or> row \<ge> rows_of img \<or> col < 0 \<or> col \<ge> cols_of img then Inl OutOfRange
      else let i = nat (row * cols_of img + col)
           in if i < length (data_of img) then Inr i else Inl UndefinedBehaviour)"

text \<open>Reading through the reference (\<^verbatim>\<open>x = img.At(r, c)\<close>) and writing through it
  (\<^verbatim>\<open>img.At(r, c) = v\<close>); the image is returned with the outcome, also when At throws.\<close>

definition readAt :: "Image \<Rightarrow> int \<Rightarrow> int \<Rightarrow> (error + int) \<times> Image" where
  "readAt img row col =
     (case At img row col of
        Inl e \<Rightarrow> (Inl e, img)
      | Inr i \<Rightarrow> (Inr (data_of img ! i), img))"

definition writeAt :: "Image \<Rightarrow> int \<Rightarrow> int \<Rightarrow> int \<Rightarrow> (error + unit) \<times> Image" where
  "writeAt img row col v =
     (case At img row col of
        Inl e \<Rightarrow> (Inl e, img)
      | Inr i \<Rightarrow> (Inr (), img\<lparr>data_of := (data_of img)[i := v]\<rparr>))"

section \<open>The scanner\<close>

text \<open>\<^verbatim>\<open>int dr[] = {-1, 1, 0, 0}; int dc[] = {0, 0, -1, 1};\<close>\<close>

definition dr :: "nat \<Rightarrow> int" where
  "dr i = [-1, 1, 0, 0] ! i"

definition dc :: "nat \<Rightarrow> int" where
  "dc i = [0, 0, -1, 1] ! i"

text \<open>
  \<^verbatim>\<open>CheckNextPixel\<close>: the loop \<^verbatim>\<open>for (int i = 0; i < 4; ++i)\<close> with its variable \<open>i\<close>
  as an argument, the image and \<open>count\<close> as the state. The recursive call of the source
  starts the loop of the neighbour at \<open>i = 0\<close>; when it returns, the loop of the current
  pixel goes on at \<open>i + 1\<close>. The recursion need not end (\<open>None\<close>).
\<close>

partial_function (option) CheckNextPixel_loop ::
  "int \<Rightarrow> int \<Rightarrow> Image \<Rightarrow> int \<Rightarrow> int \<Rightarrow> int \<Rightarrow> int \<Rightarrow> nat \<Rightarrow> ((error + int) \<times> Image) option"
where
  "CheckNextPixel_loop rows cols img curRow curCol currentPixel count i =
     (if i < 4 then
        (let nextRow = curRow + dr i; nextCol = curCol + dc i
         in if nextRow \<ge> 0 \<and> nextRow < rows \<and> nextCol \<ge> 0 \<and> nextCol < cols then
              (case readAt img nextRow nextCol of
                 (Inl e, img0) \<Rightarrow> Some (Inl e, img0)
               | (Inr p, img0) \<Rightarrow>
                   if p = currentPixel then
                     (case writeAt img0 nextRow nextCol (- 1) of
                        (Inl e, img1) \<Rightarrow> Some (Inl e, img1)
                      | (Inr _, img1) \<Rightarrow>
                          Option.bind
                            (CheckNextPixel_loop rows cols img1 nextRow nextCol currentPixel
                               (count + 1) 0)
                            (\<lambda>res. case res of
                               (Inl e, img2) \<Rightarrow> Some (Inl e, img2)
                             | (Inr count2, img2) \<Rightarrow>
                                 CheckNextPixel_loop rows cols img2 curRow curCol currentPixel
                                   count2 (i + 1)))
                   else CheckNextPixel_loop rows cols img0 curRow curCol currentPixel count (i + 1))
            else CheckNextPixel_loop rows cols img curRow curCol currentPixel count (i + 1))
      else Some (Inr count, img))"

declare CheckNextPixel_loop.simps [code]

definition CheckNextPixel ::
  "int \<Rightarrow> int \<Rightarrow> Image \<Rightarrow> int \<Rightarrow> int \<Rightarrow> int \<Rightarrow> int \<Rightarrow> ((error + int) \<times> Image) option"
where
  "CheckNextPixel rows cols img curRow curCol currentPixel currentCount =
     CheckNextPixel_loop rows cols img curRow curCol currentPixel currentCount 0"

text \<open>
  \<^verbatim>\<open>FindLargestConnected\<close>: the inner loop over \<open>col\<close>, the outer loop over \<open>row\<close>, and
  the final loop over the 256 counters. \<^verbatim>\<open>countForPixel\<close> is a list of 256 counters;
  indexing it with a pixel outside \<open>0..255\<close> is undefined behaviour.
\<close>

function FindLargestConnected_cols ::
  "int \<Rightarrow> int \<Rightarrow> Image \<Rightarrow> int list \<Rightarrow> int \<Rightarrow> int \<Rightarrow> ((error + int list) \<times> Image) option"
where
  "FindLargestConnected_cols rows cols img countForPixel row col =
     (if col < cols then
        (case readAt img row col of
           (Inl e, img0) \<Rightarrow> Some (Inl e, img0)
         | (Inr currentPixel, img0) \<Rightarrow>
             if currentPixel = - 1 then
               FindLargestConnected_cols rows cols img0 countForPixel row (col + 1)
             else
               (case writeAt img0 row col (- 1) of
                  (Inl e, img1) \<Rightarrow> Some (Inl e, img1)
                | (Inr _, img1) \<Rightarrow>
                    (case CheckNextPixel rows cols img1 row col currentPixel 1 of
                       None \<Rightarrow> None
                     | Some (Inl e, img2) \<Rightarrow> Some (Inl e, img2)
                     | Some (Inr currentCount, img2) \<Rightarrow>
                         if currentPixel < 0 \<or> currentPixel \<ge> 256 then
                           Some (Inl UndefinedBehaviour, img2)
                         else
                           FindLargestConnected_cols rows cols img2
                             (if currentCount > countForPixel ! nat currentPixel
                              then countForPixel[nat currentPixel := currentCount]
                              else countForPixel)
                             row (col + 1))))
      else Some (Inr countForPixel, img))"
  by pat_completeness auto
termination
  by (relation "measure (\<lambda>(rows, cols, img, countForPixel, row, col). nat (cols - col))") auto

function FindLargestConnected_rows ::
  "int \<Rightarrow> int \<Rightarrow> Image \<Rightarrow> int list \<Rightarrow> int \<Rightarrow> ((error + int list) \<times> Image) option"
where
  "FindLargestConnected_rows rows cols img countForPixel row =
     (if row < rows then
        (case FindLargestConnected_cols rows cols img countForPixel row 0 of
           None \<Rightarrow> None
         | Some (Inl e, img1) \<Rightarrow> Some (Inl e, img1)
         | Some (Inr countForPixel1, img1) \<Rightarrow>
             FindLargestConnected_rows rows cols img1 countForPixel1 (row + 1))
      else Some (Inr countForPixel, img))"
  by pat_completeness auto
termination
  by (relation "measure (\<lambda>(rows, cols, img, countForPixel, row). nat (rows - row))") auto

declare FindLargestConnected_cols.simps [simp del]
declare FindLargestConnected_rows.simps [simp del]

definition maxCount_loop :: "int list \<Rightarrow> int" where
  "maxCount_loop countForPixel =
     fold (\<lambda>i maxCount. if countForPixel ! i > maxCount then countForPixel ! i else maxCount)
       [0..<256] 0"

definition FindLargestConnected :: "int \<Rightarrow> int \<Rightarrow> Image \<Rightarrow> ((error + int) \<times> Image) option" where
  "FindLargestConnected rows cols img =
     (case FindLargestConnected_rows rows cols img (replicate 256 0) 0 of
        None \<Rightarrow> None
      | Some (Inl e, img1) \<Rightarrow> Some (Inl e, img1)
      | Some (Inr countForPixel, img1) \<Rightarrow> Some (Inr (maxCount_loop countForPixel), img1))"

text \<open>The image of \<^verbatim>\<open>main\<close>.\<close>

definition main_data :: "int list" where
  "main_data =
     [1, 1, 2, 2, 3, 3,
      1, 1, 1, 2, 3, 3,
      4, 4, 1, 2, 2, 3,
      4, 4, 4, 5, 5, 5,
      4, 4, 4, 4, 5, 5]"

definition myImage :: Image where
  "myImage = \<lparr>rows_of = 5, cols_of = 6, data_of = main_data\<rparr>"

section \<open>Reference definitions\<close>

text \<open>
  The class invariant of the specification: the backing sequence has \<open>rows * cols\<close>
  elements. Both constructors establish it.
\<close>

definition Image_inv :: "Image \<Rightarrow> bool" where
  "Image_inv img = (int (length (data_of img)) = rows_of img * cols_of img)"

text \<open>
  The cells of a grid are the pairs \<open>(row, col)\<close> inside its bounds, \<open>pix\<close> is the value
  stored for a cell (row-major order). Two cells are 4-adjacent when they differ by one
  step along one axis. A region is the set of cells connected to a cell through
  4-adjacent cells of equal value, and \<open>largest_region\<close> the largest size of a region
  (0 when there is no cell). \<open>largest_unmarked_region\<close> leaves out the regions of cells
  that hold the visited marker \<open>-1\<close>.
\<close>

definition cells :: "Image \<Rightarrow> (int \<times> int) set" where
  "cells img = {0..<rows_of img} \<times> {0..<cols_of img}"

definition pix :: "Image \<Rightarrow> int \<times> int \<Rightarrow> int" where
  "pix img p = data_of img ! nat (fst p * cols_of img + snd p)"

definition adj4 :: "int \<times> int \<Rightarrow> int \<times> int \<Rightarrow> bool" where
  "adj4 p q = (\<bar>fst p - fst q\<bar> + \<bar>snd p - snd q\<bar> = 1)"

definition same_value_adjacent :: "Image \<Rightarrow> ((int \<times> int) \<times> (int \<times> int)) set" where
  "same_value_adjacent img =
     {(p, q). p \<in> cells img \<and> q \<in> cells img \<and> adj4 p q \<and> pix img p = pix img q}"

definition region :: "Image \<Rightarrow> int \<times> int \<Rightarrow> (int \<times> int) set" where
  "region img p = (same_value_adjacent img)\<^sup>* `` {p}"

definition largest_region :: "Image \<Rightarrow> int" where
  "largest_region img = Max (insert 0 ((\<lambda>p. int (card (region img p))) ` cells img))"

definition largest_unmarked_region :: "Image \<Rightarrow> int" where
  "largest_unmarked_region img =
     Max (insert 0 ((\<lambda>p. int (card (region img p))) ` {p \<in> cells img. pix img p \<noteq> - 1}))"

text \<open>The only change a cell may undergo: it keeps its value or becomes \<open>-1\<close>.\<close>

definition marks_only :: "Image \<Rightarrow> Image \<Rightarrow> bool" where
  "marks_only img img' =
     (rows_of img' = rows_of img \<and> cols_of img' = cols_of img \<and>
      length (data_of img') = length (data_of img) \<and>
      (\<forall>k < length (data_of img). data_of img' ! k = data_of img ! k \<or> data_of img' ! k = - 1))"

section \<open>Notions for the proofs\<close>

text \<open>
  \<open>value_cells img v\<close> are the cells that hold \<open>v\<close>; \<open>nb p i\<close> is the neighbour of \<open>p\<close> that
  the loop of CheckNextPixel examines at index \<open>i\<close>, and \<open>nbs_from p i\<close> are the
  neighbours examined from index \<open>i\<close> on. \<open>reach S X\<close> are the cells of \<open>S\<close> connected to a
  cell of \<open>X\<close> by a path of 4-adjacent cells inside \<open>S\<close>. \<open>marked img S img'\<close> says that
  \<open>img'\<close> is \<open>img\<close> with the cells of \<open>S\<close> set to \<open>-1\<close>.
\<close>

definition value_cells :: "Image \<Rightarrow> int \<Rightarrow> (int \<times> int) set" where
  "value_cells img v = {p \<in> cells img. pix img p = v}"

definition nb :: "int \<times> int \<Rightarrow> nat \<Rightarrow> int \<times> int" where
  "nb p i = (fst p + dr i, snd p + dc i)"

definition nbs_from :: "int \<times> int \<Rightarrow> nat \<Rightarrow> (int \<times> int) set" where
  "nbs_from p i = nb p ` {i..<4}"

definition adjE :: "(int \<times> int) set \<Rightarrow> ((int \<times> int) \<times> (int \<times> int)) set" where
  "adjE S = {(p, q). p \<in> S \<and> q \<in> S \<and> adj4 p q}"

definition reach :: "(int \<times> int) set \<Rightarrow> (int \<times> int) set \<Rightarrow> (int \<times> int) set" where
  "reach S X = (adjE S)\<^sup>* `` (X \<inter> S)"

definition marked :: "Image \<Rightarrow> (int \<times> int) set \<Rightarrow> Image \<Rightarrow> bool" where
  "marked img S img' =
     (rows_of img' = rows_of img \<and> cols_of img' = cols_of img \<and>
      length (data_of img') = length (data_of img) \<and>
      (\<forall>p \<in> cells img. pix img' p = (if p \<in> S then - 1 else pix img p)))"

text \<open>
  The invariant of the outer scan, relative to the image \<open>img0\<close> at the start: the cells
  \<open>D\<close> marked so far are whole regions of \<open>img0\<close> with values in \<open>0..255\<close>, the current
  image is \<open>img0\<close> with \<open>D\<close> marked, and each counter holds the largest size of a region of
  its value inside \<open>D\<close>. \<open>scanned img row col\<close> says that every cell before \<open>(row, col)\<close>
  in row-major order is marked. A bad pixel is one that is neither the marker nor an
  index of \<^verbatim>\<open>countForPixel\<close>.
\<close>

definition region_size :: "Image \<Rightarrow> int \<times> int \<Rightarrow> int" where
  "region_size img p = int (card (region img p))"

definition scan_inv :: "Image \<Rightarrow> (int \<times> int) set \<Rightarrow> Image \<Rightarrow> int list \<Rightarrow> bool" where
  "scan_inv img0 D img countForPixel =
     (D \<subseteq> cells img0 \<and>
      (\<forall>p \<in> D. 0 \<le> pix img0 p \<and> pix img0 p < 256 \<and> region img0 p \<subseteq> D) \<and>
      marked img0 D img \<and> length countForPixel = 256 \<and>
      (\<forall>k < 256. countForPixel ! k =
         Max (insert 0 (region_size img0 ` {p \<in> D. pix img0 p = int k}))))"

definition scanned :: "Image \<Rightarrow> int \<Rightarrow> int \<Rightarrow> bool" where
  "scanned img row col =
     (\<forall>p \<in> cells img. fst p < row \<or> (fst p = row \<and> snd p < col) \<longrightarrow> pix img p = - 1)"

definition bad_pixel :: "Image \<Rightarrow> bool" where
  "bad_pixel img = (\<exists>p \<in> cells img. pix img p < - 1 \<or> 255 < pix img p)"

text \<open>
  A call is safe when it only marks cells and, given dimensions within those of the
  image, does not end in OutOfRange.
\<close>

definition safe_step :: "int \<Rightarrow> int \<Rightarrow> Image \<Rightarrow> (error + 'a) \<times> Image \<Rightarrow> bool" where
  "safe_step rows cols img y =
     (marks_only img (snd y) \<and>
      (rows \<le> rows_of img \<and> cols \<le> cols_of img \<longrightarrow> fst y \<noteq> Inl OutOfRange))"


text \<open>The grid of \<open>R\<close> rows and \<open>C\<close> columns in which every cell holds \<open>v\<close>.\<close>

definition uniform_image :: "int \<Rightarrow> int \<Rightarrow> int \<Rightarrow> Image" where
  "uniform_image R C v = \<lparr>rows_of = R, cols_of = C, data_of = replicate (nat (R * C)) v\<rparr>"

text \<open>A row of three cells whose middle cell holds the visited marker at the start.\<close>

definition barrier_image :: Image where
  "barrier_image = \<lparr>rows_of = 1, cols_of = 3, data_of = [7, - 1, 7]\<rparr>"

section \<open>The constructors and At\<close>

lemma size_t_of_int_nonneg:
  assumes "0 \<le> x" "int_range x"
  shows "size_t_of_int x = nat x"
proof -
  have "x < 2 ^ 64" using assms(2) by (simp add: int_range_def)
  then show ?thesis using assms(1) by (simp add: size_t_of_int_def)
qed

lemma size_t_of_int_neg:
  assumes "x < 0" "int_range x"
  shows "size_t_of_int x = nat (2 ^ 64 + x)"
proof -
  have "- (2 ^ 64) \<le> x" using assms(2) by (simp add: int_range_def)
  then have "(x + 2 ^ 64) mod 2 ^ 64 = x + 2 ^ 64"
    using assms(1) by (intro mod_pos_pos_trivial) simp_all
  moreover have "(x + 2 ^ 64) mod 2 ^ 64 = x mod 2 ^ 64"
    by (rule mod_add_self2)
  ultimately show ?thesis by (simp add: size_t_of_int_def add.commute)
qed

lemma size_t_of_int_neg_large:
  assumes "x < 0" "int_range x"
  shows "vector_max_size < size_t_of_int x"
proof -
  have "- (2 ^ 31) \<le> x" using assms(2) by (simp add: int_range_def)
  then show ?thesis
    by (simp add: size_t_of_int_neg [OF assms] vector_max_size_def)
qed

lemma int32_id:
  assumes "int_range x"
  shows "int32 x = x"
proof -
  have "0 \<le> x + 2 ^ 31" "x + 2 ^ 31 < 2 ^ 32" using assms by (simp_all add: int_range_def)
  then have "(x + 2 ^ 31) mod 2 ^ 32 = x + 2 ^ 31" by (rule mod_pos_pos_trivial)
  then show ?thesis by (simp add: int32_def)
qed

lemma int32_range: "int_range (int32 x)"
proof -
  define m where "m = (x + 2 ^ 31) mod 2 ^ 32"
  have "0 \<le> m" "m < 2 ^ 32" by (simp_all add: m_def)
  then have "- (2 ^ 31) \<le> m - 2 ^ 31 \<and> m - 2 ^ 31 < 2 ^ 31" by simp
  then show ?thesis unfolding int_range_def int32_def m_def .
qed

text \<open>
  Where the product of \<open>rows\<close> and \<open>cols\<close> fits in \<^verbatim>\<open>int\<close> (and the vector is no longer
  than \<^verbatim>\<open>max_size()\<close>), the three-argument constructor fails with InvalidArgument
  exactly when the length of the initial data differs from \<open>rows * cols\<close>, it fails in
  no other way, and an image it returns satisfies the class invariant.
\<close>

lemma Image3_InvalidArgument_in_range:
  assumes "int_range (rows * cols)" "length initial_data \<le> vector_max_size"
  shows "(Image3 rows cols initial_data = Inl InvalidArgument
            \<longleftrightarrow> int (length initial_data) \<noteq> rows * cols) \<and>
         (\<forall>e. Image3 rows cols initial_data = Inl e \<longrightarrow> e = InvalidArgument) \<and>
         (\<forall>img. Image3 rows cols initial_data = Inr img \<longrightarrow>
            int (length (data_of img)) = rows * cols \<and> Image_inv img \<and>
            rows_of img = rows \<and> cols_of img = cols \<and> data_of img = initial_data)"
proof (cases "0 \<le> rows * cols")
  case True
  then have "size_t_of_int (rows * cols) = nat (rows * cols)"
    using assms(1) by (rule size_t_of_int_nonneg)
  then show ?thesis
    using True by (auto simp: Image3_def Image_inv_def int32_id [OF assms(1)])
next
  case False
  then have "vector_max_size < size_t_of_int (rows * cols)"
    using assms(1) by (simp add: size_t_of_int_neg_large)
  then have "length initial_data \<noteq> size_t_of_int (rows * cols)"
    using assms(2) by simp
  then show ?thesis
    using False by (auto simp: Image3_def int32_id [OF assms(1)])
qed

text \<open>
  C5 fails on the code where the product overflows. The constructor compares the length
  of the initial data with \<^verbatim>\<open>rows_ * cols_\<close> computed in 32-bit \<^verbatim>\<open>int\<close>. For
  \<open>rows = cols = 65536\<close> that product is 0, so the empty vector is accepted although its
  length differs from \<open>rows * cols = 2 ^ 32\<close>. The image returned breaks the class
  invariant: At at \<open>(0, 0)\<close> passes its bounds check and reaches outside the vector.
\<close>

theorem Image3_overflow_accepted:
  "Image3 65536 65536 [] = Inr \<lparr>rows_of = 65536, cols_of = 65536, data_of = []\<rparr> \<and>
   int (length ([] :: int list)) \<noteq> 65536 * 65536 \<and>
   \<not> Image_inv \<lparr>rows_of = 65536, cols_of = 65536, data_of = []\<rparr> \<and>
   At \<lparr>rows_of = 65536, cols_of = 65536, data_of = []\<rparr> 0 0 = Inl UndefinedBehaviour"
  by (simp add: Image3_def int32_def size_t_of_int_def Image_inv_def At_def)

text \<open>
  C6. With \<open>row\<close> outside \<open>[0, rows)\<close> or \<open>col\<close> outside \<open>[0, cols)\<close>, At throws
  OutOfRange: no reference is returned, so a read yields no value, a write stores
  nothing, and the image is the one before the call.
\<close>

theorem At_OutOfRange:
  assumes "row < 0 \<or> rows_of img \<le> row \<or> col < 0 \<or> cols_of img \<le> col"
  shows "At img row col = Inl OutOfRange \<and>
         readAt img row col = (Inl OutOfRange, img) \<and>
         writeAt img row col v = (Inl OutOfRange, img)"
  using assms by (auto simp: At_def readAt_def writeAt_def)

theorem At_OutOfRange_witness:
  "At myImage 5 0 = Inl OutOfRange \<and> readAt myImage 0 (- 1) = (Inl OutOfRange, myImage) \<and>
   writeAt myImage 2 6 7 = (Inl OutOfRange, myImage)"
  using At_OutOfRange [of 5 myImage 0] At_OutOfRange [of 0 myImage "- 1"]
    At_OutOfRange [of 2 myImage 6 7]
  by (simp add: myImage_def)

text \<open>
  C7 as claimed fails: the two-argument constructor checks nothing. With \<open>rows = -1\<close> and
  \<open>cols = -1\<close> the product is 1 and the constructor returns an image of one cell.
\<close>

theorem Image2_negative_counterexample:
  "Image2 (- 1) (- 1) = Inr \<lparr>rows_of = - 1, cols_of = - 1, data_of = [0]\<rparr> \<and>
   Image2 (- 1) (- 1) \<noteq> Inl InvalidArgument"
  by (simp add: Image2_def int32_def size_t_of_int_def vector_max_size_def)

text \<open>
  C7, amended. The two-argument constructor checks nothing and never fails with
  InvalidArgument, whatever its arguments. When the product \<open>rows * cols\<close> fits in
  32-bit \<^verbatim>\<open>int\<close>: if it is not negative (also when both arguments are negative) the
  constructor returns an image of \<open>rows * cols\<close> cells, all 0; if it is negative the size
  asked of the vector is beyond \<^verbatim>\<open>max_size()\<close> and the vector's constructor throws a
  length error.
\<close>

theorem Image2_no_InvalidArgument:
  "Image2 rows cols \<noteq> Inl InvalidArgument \<and>
   (int_range (rows * cols) \<and> 0 \<le> rows * cols \<longrightarrow>
      Image2 rows cols =
        Inr \<lparr>rows_of = rows, cols_of = cols, data_of = replicate (nat (rows * cols)) 0\<rparr>) \<and>
   (int_range (rows * cols) \<and> rows * cols < 0 \<longrightarrow> Image2 rows cols = Inl LengthError)"
proof -
  let ?p = "int32 (rows * cols)"
  have r: "int_range ?p" by (rule int32_range)
  have 1: "Image2 rows cols =
             Inr \<lparr>rows_of = rows, cols_of = cols, data_of = replicate (nat ?p) 0\<rparr>"
    if "0 \<le> ?p"
  proof -
    have "?p < 2 ^ 31" using r by (simp add: int_range_def)
    then have "nat ?p \<le> vector_max_size"
      by (simp add: vector_max_size_def nat_le_iff)
    then show ?thesis
      by (simp add: Image2_def size_t_of_int_nonneg [OF that r])
  qed
  have 2: "Image2 rows cols = Inl LengthError" if "?p < 0"
  proof -
    have "vector_max_size < size_t_of_int ?p"
      using that r by (rule size_t_of_int_neg_large)
    then show ?thesis by (simp add: Image2_def)
  qed
  have "Image2 rows cols \<noteq> Inl InvalidArgument"
    using 1 2 by (cases "0 \<le> ?p") simp_all
  moreover have "Image2 rows cols =
      Inr \<lparr>rows_of = rows, cols_of = cols, data_of = replicate (nat (rows * cols)) 0\<rparr>"
    if "int_range (rows * cols) \<and> 0 \<le> rows * cols"
    using 1 that by (simp add: int32_id)
  moreover have "Image2 rows cols = Inl LengthError"
    if "int_range (rows * cols) \<and> rows * cols < 0"
    using 2 that by (simp add: int32_id)
  ultimately show ?thesis by blast
qed

theorem Image2_no_InvalidArgument_witness:
  "Image2 (- 2) (- 3) = Inr \<lparr>rows_of = - 2, cols_of = - 3, data_of = [0, 0, 0, 0, 0, 0]\<rparr> \<and>
   Image2 (- 2) 3 = Inl LengthError \<and> Image2 (- 2) 3 \<noteq> Inl InvalidArgument"
proof -
  have r: "replicate 6 (0::int) = [0, 0, 0, 0, 0, 0]" by code_simp
  show ?thesis
    using Image2_no_InvalidArgument [of "- 2" "- 3"] Image2_no_InvalidArgument [of "- 2" 3]
    by (simp add: int_range_def r)
qed

section \<open>The scan of given images\<close>

text \<open>
  C2 as claimed fails: on the 5 by 6 image of \<^verbatim>\<open>main\<close> the result is not 6. The
  region of the value 4 has the nine cells (2,0), (2,1), (3,0), (3,1), (3,2), (4,0),
  (4,1), (4,2), (4,3); six is the size of the region of the value 1.
\<close>

theorem FindLargestConnected_main_counterexample:
  "map_option fst (FindLargestConnected 5 6 myImage) \<noteq> Some (Inr 6)"
  by code_simp

text \<open>
  C2, amended. On the 5 by 6 image of \<^verbatim>\<open>main\<close>, FindLargestConnected returns 9 (and
  leaves every cell marked).
\<close>

theorem FindLargestConnected_main:
  "Image3 5 6 main_data = Inr myImage \<and>
   FindLargestConnected 5 6 myImage =
     Some (Inr 9, \<lparr>rows_of = 5, cols_of = 6, data_of = replicate 30 (- 1)\<rparr>)"
  by code_simp

text \<open>C4. On the empty grid (0 rows, 0 columns), FindLargestConnected returns 0.\<close>

theorem FindLargestConnected_empty:
  "Image3 0 0 [] = Inr \<lparr>rows_of = 0, cols_of = 0, data_of = []\<rparr> \<and>
   FindLargestConnected 0 0 \<lparr>rows_of = 0, cols_of = 0, data_of = []\<rparr> =
     Some (Inr 0, \<lparr>rows_of = 0, cols_of = 0, data_of = []\<rparr>)"
  by code_simp

section \<open>Reachability among 4-adjacent cells\<close>

lemma adj4_sym: "adj4 p q \<Longrightarrow> adj4 q p"
  by (simp add: adj4_def abs_minus_commute)

lemma adj4_iff_nb: "adj4 p q \<longleftrightarrow> q \<in> nbs_from p 0"
proof -
  have s: "{0..<4::nat} = {0, 1, 2, 3}" by auto
  obtain a b where p: "p = (a, b)" by (cases p)
  obtain c d where q: "q = (c, d)" by (cases q)
  show ?thesis
    unfolding nbs_from_def s p q by (auto simp: adj4_def nb_def dr_def dc_def)
qed

lemma nbs_from_4: "4 \<le> i \<Longrightarrow> nbs_from p i = {}"
  by (simp add: nbs_from_def)

lemma nbs_from_step:
  assumes "i < 4"
  shows "nbs_from p i = insert (nb p i) (nbs_from p (Suc i))"
proof -
  have "{i..<4} = insert i {Suc i..<4}" using assms by auto
  then show ?thesis by (simp add: nbs_from_def)
qed

lemma adjE_sym: "(p, q) \<in> adjE S \<Longrightarrow> (q, p) \<in> adjE S"
  by (auto simp: adjE_def adj4_sym)

lemma adjE_rtrancl_sym: "(p, q) \<in> (adjE S)\<^sup>* \<Longrightarrow> (q, p) \<in> (adjE S)\<^sup>*"
  by (induction rule: rtrancl_induct) (auto intro: converse_rtrancl_into_rtrancl adjE_sym)

lemma adjE_rtrancl_in: "(p, q) \<in> (adjE S)\<^sup>* \<Longrightarrow> p \<in> S \<Longrightarrow> q \<in> S"
  by (induction rule: rtrancl_induct) (auto simp: adjE_def)

lemma adjE_mono: "S \<subseteq> T \<Longrightarrow> adjE S \<subseteq> adjE T"
  by (auto simp: adjE_def)

lemma reach_subset: "reach S X \<subseteq> S"
  by (auto simp: reach_def dest: adjE_rtrancl_in)

lemma reach_empty: "reach S {} = {}"
  by (simp add: reach_def)

lemma reach_insert_notin: "x \<notin> S \<Longrightarrow> reach S (insert x X) = reach S X"
  by (simp add: reach_def)

lemma reach_insert: "reach S (insert a X) = reach S {a} \<union> reach S X"
  by (auto simp: reach_def)

lemma reach_self: "a \<in> S \<Longrightarrow> a \<in> reach S {a}"
  by (simp add: reach_def)

text \<open>Removing a set closed under adjacency does not change what is reachable from
  outside of it.\<close>

lemma reach_minus_closed:
  assumes closed: "\<And>x y. (x, y) \<in> adjE S \<Longrightarrow> x \<in> D \<longleftrightarrow> y \<in> D"
    and p: "p \<notin> D"
  shows "reach (S - D) {p} = reach S {p}"
proof
  show "reach (S - D) {p} \<subseteq> reach S {p}"
    using rtrancl_mono [OF adjE_mono [of "S - D" S]] by (auto simp: reach_def)
next
  have "(p, q) \<in> (adjE S)\<^sup>* \<Longrightarrow> p \<in> S \<Longrightarrow> (p, q) \<in> (adjE (S - D))\<^sup>* \<and> q \<notin> D" for q
  proof (induction rule: rtrancl_induct)
    case base
    then show ?case using p by simp
  next
    case (step y z)
    then have y: "(p, y) \<in> (adjE (S - D))\<^sup>*" "y \<notin> D" by auto
    with step.hyps(2) closed have z: "z \<notin> D" by blast
    with y step.hyps(2) have "(y, z) \<in> adjE (S - D)" by (auto simp: adjE_def)
    with y z show ?case by (auto intro: rtrancl_into_rtrancl)
  qed
  then show "reach S {p} \<subseteq> reach (S - D) {p}"
    using p by (auto simp: reach_def)
qed

lemma reach_closed:
  assumes "(x, y) \<in> adjE S"
  shows "x \<in> reach S {a} \<longleftrightarrow> y \<in> reach S {a}"
proof
  assume "x \<in> reach S {a}"
  then show "y \<in> reach S {a}"
    using assms by (auto simp: reach_def intro: rtrancl_into_rtrancl)
next
  assume "y \<in> reach S {a}"
  then show "x \<in> reach S {a}"
    using adjE_sym [OF assms] by (auto simp: reach_def intro: rtrancl_into_rtrancl)
qed

lemma reach_Union: "reach T X = (\<Union>p\<in>X. reach T {p})"
  by (auto simp: reach_def)

lemma reach_trans: "p \<in> reach S {a} \<Longrightarrow> q \<in> reach S {p} \<Longrightarrow> q \<in> reach S {a}"
  by (auto simp: reach_def intro: rtrancl_trans)

lemma reach_minus_component:
  "reach S X \<union> reach S {a} = reach (S - reach S {a}) X \<union> reach S {a}"
proof -
  let ?C = "reach S {a}"
  have eq: "reach (S - ?C) {p} = reach S {p}" if "p \<notin> ?C" for p
  proof (rule reach_minus_closed)
    show "x \<in> ?C \<longleftrightarrow> y \<in> ?C" if "(x, y) \<in> adjE S" for x y
      using that by (rule reach_closed)
    show "p \<notin> ?C" by (rule that)
  qed
  have "q \<in> reach (S - ?C) X \<union> ?C" if "q \<in> reach S X" for q
  proof -
    from that obtain p where p: "p \<in> X" "q \<in> reach S {p}"
      unfolding reach_Union [of S X] by blast
    show ?thesis
    proof (cases "p \<in> ?C")
      case True
      then have "q \<in> ?C" using p(2) by (rule reach_trans)
      then show ?thesis by simp
    next
      case False
      then have "q \<in> reach (S - ?C) {p}" using p(2) eq by simp
      then have "q \<in> reach (S - ?C) X"
        unfolding reach_Union [of _ X] using p(1) by blast
      then show ?thesis by simp
    qed
  qed
  moreover have "q \<in> reach S X" if "q \<in> reach (S - ?C) X" for q
  proof -
    from that obtain p where p: "p \<in> X" "q \<in> reach (S - ?C) {p}"
      unfolding reach_Union [of _ X] by blast
    then have "p \<in> S - ?C" by (auto simp: reach_def)
    then have "q \<in> reach S {p}" using p(2) eq by simp
    then show ?thesis unfolding reach_Union [of S X] using p(1) by blast
  qed
  ultimately show ?thesis by blast
qed

text \<open>The component of a cell is the cell itself and what its neighbours reach
  without passing through it.\<close>

lemma reach_seed:
  assumes "a \<in> S"
  shows "reach S {a} = insert a (reach (S - {a}) (nbs_from a 0))"
proof
  have "(a, q) \<in> (adjE S)\<^sup>* \<Longrightarrow> q \<in> insert a (reach (S - {a}) (nbs_from a 0))" for q
  proof (induction rule: rtrancl_induct)
    case base
    then show ?case by simp
  next
    case (step y z)
    show ?case
    proof (cases "z = a")
      case True
      then show ?thesis by simp
    next
      case False
      then have z: "z \<in> S - {a}" using step.hyps(2) by (auto simp: adjE_def)
      show ?thesis
      proof (cases "y = a")
        case True
        then have "z \<in> nbs_from a 0"
          using step.hyps(2) by (auto simp: adjE_def adj4_iff_nb)
        with z show ?thesis by (auto simp: reach_def)
      next
        case False
        with step.IH have y: "y \<in> reach (S - {a}) (nbs_from a 0)" by simp
        then have "y \<in> S - {a}" using reach_subset by blast
        with z step.hyps(2) have "(y, z) \<in> adjE (S - {a})" by (auto simp: adjE_def)
        with y show ?thesis by (auto simp: reach_def intro: rtrancl_into_rtrancl)
      qed
    qed
  qed
  then show "reach S {a} \<subseteq> insert a (reach (S - {a}) (nbs_from a 0))"
    by (auto simp: reach_def)
next
  have "q \<in> reach S {a}" if "q \<in> reach (S - {a}) (nbs_from a 0)" for q
  proof -
    from that obtain s where s: "s \<in> nbs_from a 0" "s \<in> S - {a}"
      and sq: "(s, q) \<in> (adjE (S - {a}))\<^sup>*" by (auto simp: reach_def)
    have "(a, s) \<in> adjE S" using s assms by (auto simp: adjE_def adj4_iff_nb)
    moreover have "(s, q) \<in> (adjE S)\<^sup>*"
      using sq rtrancl_mono [OF adjE_mono [of "S - {a}" S]] by blast
    ultimately show ?thesis
      using assms by (auto simp: reach_def intro: converse_rtrancl_into_rtrancl)
  qed
  then show "insert a (reach (S - {a}) (nbs_from a 0)) \<subseteq> reach S {a}"
    using reach_self [OF assms] by auto
qed

section \<open>Cells, indices and marking\<close>

lemma finite_cells: "finite (cells img)"
  by (simp add: cells_def)

lemma finite_value_cells: "finite (value_cells img v)"
  by (simp add: value_cells_def finite_cells)

lemma value_cells_subset: "value_cells img v \<subseteq> cells img"
  by (auto simp: value_cells_def)

lemma finite_reach: "finite (reach (value_cells img v) X)"
  using reach_subset finite_value_cells by (rule finite_subset)

lemma cell_index_less:
  assumes "0 \<le> r" "r < R" "0 \<le> c" "c < (C::int)"
  shows "r * C + c < R * C"
proof -
  have "r * C + c < r * C + C" using assms by simp
  also have "\<dots> = (r + 1) * C" by (simp add: algebra_simps)
  also have "\<dots> \<le> R * C" using assms by (intro mult_right_mono) simp_all
  finally show ?thesis .
qed

lemma cell_index_inj:
  assumes "0 \<le> r" "0 \<le> c" "c < (C::int)" "0 \<le> r'" "0 \<le> c'" "c' < C"
    and "r * C + c = r' * C + c'"
  shows "r = r' \<and> c = c'"
proof -
  have "r' < r + 1"
  proof (rule ccontr)
    assume "\<not> r' < r + 1"
    then have "(r + 1) * C \<le> r' * C" using assms by (intro mult_right_mono) simp_all
    then show False using assms by (simp add: algebra_simps)
  qed
  moreover have "r < r' + 1"
  proof (rule ccontr)
    assume "\<not> r < r' + 1"
    then have "(r' + 1) * C \<le> r * C" using assms by (intro mult_right_mono) simp_all
    then show False using assms by (simp add: algebra_simps)
  qed
  ultimately have "r = r'" by simp
  then show ?thesis using assms by simp
qed

lemma cell_index_in_data:
  assumes "Image_inv img" "(r, c) \<in> cells img"
  shows "nat (r * cols_of img + c) < length (data_of img)"
proof -
  have b: "0 \<le> r" "r < rows_of img" "0 \<le> c" "c < cols_of img"
    using assms(2) by (simp_all add: cells_def)
  have "r * cols_of img + c < int (length (data_of img))"
    using cell_index_less [OF b] assms(1) by (simp add: Image_inv_def)
  moreover have "0 \<le> r * cols_of img + c" using b by simp
  ultimately show ?thesis by (simp add: nat_less_iff)
qed

lemma At_cell:
  assumes "Image_inv img" "(r, c) \<in> cells img"
  shows "At img r c = Inr (nat (r * cols_of img + c))"
proof -
  have b: "0 \<le> r" "r < rows_of img" "0 \<le> c" "c < cols_of img"
    using assms(2) by (simp_all add: cells_def)
  show ?thesis using b cell_index_in_data [OF assms] by (simp add: At_def)
qed

lemma readAt_cell:
  assumes "Image_inv img" "(r, c) \<in> cells img"
  shows "readAt img r c = (Inr (pix img (r, c)), img)"
  by (simp add: readAt_def At_cell [OF assms] pix_def)

lemma pix_update:
  assumes "Image_inv img" "p \<in> cells img" "q \<in> cells img"
  shows "pix (img\<lparr>data_of := (data_of img)[nat (fst p * cols_of img + snd p) := v]\<rparr>) q =
         (if q = p then v else pix img q)"
proof -
  obtain r c where p: "p = (r, c)" by (cases p)
  obtain r' c' where q: "q = (r', c')" by (cases q)
  have bp: "0 \<le> r" "r < rows_of img" "0 \<le> c" "c < cols_of img"
    using assms(2) by (simp_all add: cells_def p)
  have bq: "0 \<le> r'" "r' < rows_of img" "0 \<le> c'" "c' < cols_of img"
    using assms(3) by (simp_all add: cells_def q)
  have lp: "nat (r * cols_of img + c) < length (data_of img)"
    using cell_index_in_data [OF assms(1)] assms(2) by (simp add: p)
  have nn: "0 \<le> r * cols_of img + c" "0 \<le> r' * cols_of img + c'"
    using bp bq by simp_all
  have "nat (r * cols_of img + c) = nat (r' * cols_of img + c') \<longleftrightarrow>
        r * cols_of img + c = r' * cols_of img + c'"
    using nn by (rule eq_nat_nat_iff)
  also have "\<dots> \<longleftrightarrow> q = p"
    using cell_index_inj [OF bp(1) bp(3) bp(4) bq(1) bq(3) bq(4)] by (auto simp: p q)
  finally have "nat (r * cols_of img + c) = nat (r' * cols_of img + c') \<longleftrightarrow> q = p" .
  then show ?thesis
    using lp by (auto simp: pix_def p q nth_list_update)
qed

lemma writeAt_cell:
  assumes "Image_inv img" "(r, c) \<in> cells img"
  shows "\<exists>img'. writeAt img r c (- 1) = (Inr (), img') \<and> marked img {(r, c)} img'"
proof -
  let ?img' = "img\<lparr>data_of := (data_of img)[nat (r * cols_of img + c) := - 1]\<rparr>"
  have "writeAt img r c (- 1) = (Inr (), ?img')"
    by (simp add: writeAt_def At_cell [OF assms])
  moreover have "marked img {(r, c)} ?img'"
    using pix_update [OF assms(1) assms(2), of _ "- 1"] by (simp add: marked_def)
  ultimately show ?thesis by blast
qed

lemma marked_refl: "marked img {} img"
  by (simp add: marked_def)

lemma marked_cells: "marked img S img' \<Longrightarrow> cells img' = cells img"
  by (simp add: marked_def cells_def)

lemma marked_inv: "marked img S img' \<Longrightarrow> Image_inv img \<Longrightarrow> Image_inv img'"
  by (simp add: marked_def Image_inv_def)

lemma marked_dims: "marked img S img' \<Longrightarrow> rows_of img' = rows_of img \<and> cols_of img' = cols_of img"
  by (simp add: marked_def)

lemma marked_value_cells:
  "marked img S img' \<Longrightarrow> v \<noteq> - 1 \<Longrightarrow> value_cells img' v = value_cells img v - S"
  by (auto simp: marked_def value_cells_def cells_def)

lemma marked_trans:
  assumes "marked img S img1" "marked img1 T img2"
  shows "marked img (S \<union> T) img2"
proof -
  have c: "cells img1 = cells img" using assms(1) by (rule marked_cells)
  show ?thesis
    using assms unfolding marked_def c by auto
qed

section \<open>The traversal\<close>

lemma nb_in_cells_iff:
  "nb (cr, cc) i \<in> cells img \<longleftrightarrow>
     (0 \<le> cr + dr i \<and> cr + dr i < rows_of img \<and> 0 \<le> cc + dc i \<and> cc + dc i < cols_of img)"
  by (auto simp: nb_def cells_def)

text \<open>The loop skips a neighbour that is outside the grid or holds another value.\<close>

lemma CheckNextPixel_loop_skip:
  assumes "Image_inv img" "i < 4" "nb (cr, cc) i \<notin> value_cells img v"
  shows "CheckNextPixel_loop (rows_of img) (cols_of img) img cr cc v count i =
         CheckNextPixel_loop (rows_of img) (cols_of img) img cr cc v count (i + 1)"
proof (cases "nb (cr, cc) i \<in> cells img")
  case False
  then show ?thesis
    using assms(2) nb_in_cells_iff [of cr cc i img]
    by (subst CheckNextPixel_loop.simps) (auto simp: Let_def)
next
  case True
  then have c: "(cr + dr i, cc + dc i) \<in> cells img" by (simp add: nb_def)
  have "pix img (cr + dr i, cc + dc i) \<noteq> v"
    using assms(3) True by (simp add: value_cells_def nb_def)
  then show ?thesis
    using assms(2) True nb_in_cells_iff [of cr cc i img]
    by (subst CheckNextPixel_loop.simps) (simp add: Let_def readAt_cell [OF assms(1) c])
qed

text \<open>The loop marks a neighbour that holds the value, counts it, recurses from it and
  goes on with the next neighbour.\<close>

lemma CheckNextPixel_loop_visit:
  assumes "Image_inv img" "i < 4" "nb (cr, cc) i \<in> value_cells img v"
  shows "\<exists>img1. marked img {nb (cr, cc) i} img1 \<and>
           CheckNextPixel_loop (rows_of img) (cols_of img) img cr cc v count i =
             Option.bind
               (CheckNextPixel_loop (rows_of img) (cols_of img) img1
                  (fst (nb (cr, cc) i)) (snd (nb (cr, cc) i)) v (count + 1) 0)
               (\<lambda>res. case res of
                  (Inl e, img2) \<Rightarrow> Some (Inl e, img2)
                | (Inr count2, img2) \<Rightarrow>
                    CheckNextPixel_loop (rows_of img) (cols_of img) img2 cr cc v count2 (i + 1))"
proof -
  have True: "nb (cr, cc) i \<in> cells img" and p: "pix img (nb (cr, cc) i) = v"
    using assms(3) by (simp_all add: value_cells_def)
  have c: "(cr + dr i, cc + dc i) \<in> cells img" using True by (simp add: nb_def)
  obtain img1 where w: "writeAt img (cr + dr i) (cc + dc i) (- 1) = (Inr (), img1)"
    and m: "marked img {(cr + dr i, cc + dc i)} img1"
    using writeAt_cell [OF assms(1) c] by blast
  have "CheckNextPixel_loop (rows_of img) (cols_of img) img cr cc v count i =
             Option.bind
               (CheckNextPixel_loop (rows_of img) (cols_of img) img1
                  (cr + dr i) (cc + dc i) v (count + 1) 0)
               (\<lambda>res. case res of
                  (Inl e, img2) \<Rightarrow> Some (Inl e, img2)
                | (Inr count2, img2) \<Rightarrow>
                    CheckNextPixel_loop (rows_of img) (cols_of img) img2 cr cc v count2 (i + 1))"
    using assms(2) True nb_in_cells_iff [of cr cc i img] p
    by (subst CheckNextPixel_loop.simps)
      (simp add: Let_def readAt_cell [OF assms(1) c] w nb_def)
  then show ?thesis using m by (auto simp: nb_def)
qed

lemma CheckNextPixel_loop_exit:
  "\<not> i < 4 \<Longrightarrow>
   CheckNextPixel_loop rows cols img cr cc v count i = Some (Inr count, img)"
  by (subst CheckNextPixel_loop.simps) simp

lemma card_component_union:
  assumes "finite A" "finite B" "n \<notin> A" "B \<inter> insert n A = {}"
  shows "card (insert n A \<union> B) = 1 + card A + card B"
proof -
  have "card (insert n A \<union> B) = card (insert n A) + card B"
    using assms by (intro card_Un_disjoint) auto
  then show ?thesis using assms by simp
qed

lemma CheckNextPixel_loop_correct:
  assumes "Image_inv img" "v \<noteq> - 1"
  shows "\<exists>img'. CheckNextPixel_loop (rows_of img) (cols_of img) img cr cc v count i =
           Some (Inr (count + int (card (reach (value_cells img v) (nbs_from (cr, cc) i)))), img') \<and>
         marked img (reach (value_cells img v) (nbs_from (cr, cc) i)) img'"
  using assms
proof (induction "card (value_cells img v) * 5 + (4 - i)" arbitrary: img cr cc count i
    rule: less_induct)
  case less
  let ?S = "value_cells img v"
  let ?n = "nb (cr, cc) i"
  show ?case
  proof (cases "i < 4")
    case False
    then have "nbs_from (cr, cc) i = {}" by (simp add: nbs_from_4)
    then show ?thesis
      using False by (simp add: CheckNextPixel_loop_exit reach_empty marked_refl)
  next
    case True
    have step: "nbs_from (cr, cc) i = insert ?n (nbs_from (cr, cc) (Suc i))"
      using True by (rule nbs_from_step)
    show ?thesis
    proof (cases "?n \<in> ?S")
      case False
      have "card ?S * 5 + (4 - (i + 1)) < card ?S * 5 + (4 - i)" using True by simp
      from less.hyps [OF this less.prems, of cr cc count]
      show ?thesis
        using CheckNextPixel_loop_skip [OF less.prems(1) True False, of count]
        by (simp add: step reach_insert_notin [OF False])
    next
      case n: True
      let ?A = "reach (?S - {?n}) (nbs_from ?n 0)"
      let ?C = "reach ?S {?n}"
      let ?B = "reach (?S - ?C) (nbs_from (cr, cc) (Suc i))"
      obtain img1 where m1: "marked img {?n} img1"
        and eq: "CheckNextPixel_loop (rows_of img) (cols_of img) img cr cc v count i =
             Option.bind
               (CheckNextPixel_loop (rows_of img) (cols_of img) img1 (fst ?n) (snd ?n) v
                  (count + 1) 0)
               (\<lambda>res. case res of
                  (Inl e, img2) \<Rightarrow> Some (Inl e, img2)
                | (Inr count2, img2) \<Rightarrow>
                    CheckNextPixel_loop (rows_of img) (cols_of img) img2 cr cc v count2 (i + 1))"
        using CheckNextPixel_loop_visit [OF less.prems(1) True n, of count] by blast
      have C: "?C = insert ?n ?A" using n by (rule reach_seed)
      have S1: "value_cells img1 v = ?S - {?n}"
        using m1 less.prems(2) by (rule marked_value_cells)
      have inv1: "Image_inv img1" using m1 less.prems(1) by (rule marked_inv)
      have d1: "rows_of img1 = rows_of img" "cols_of img1 = cols_of img"
        using marked_dims [OF m1] by simp_all
      have fin: "finite ?S" by (rule finite_value_cells)
      have "card (?S - {?n}) < card ?S" using fin n by (rule card_Diff1_less)
      then have "card (value_cells img1 v) * 5 + (4 - 0) < card ?S * 5 + (4 - i)"
        unfolding S1 by simp
      from less.hyps [OF this inv1 less.prems(2), of "fst ?n" "snd ?n" "count + 1"]
      obtain img2 where
        r1: "CheckNextPixel_loop (rows_of img) (cols_of img) img1 (fst ?n) (snd ?n) v
               (count + 1) 0 = Some (Inr (count + 1 + int (card ?A)), img2)"
        and m2: "marked img1 ?A img2"
        unfolding d1 S1 by auto
      have S2: "value_cells img2 v = ?S - ?C"
        using marked_value_cells [OF m2 less.prems(2)] S1 C by auto
      have inv2: "Image_inv img2" using m2 inv1 by (rule marked_inv)
      have d2: "rows_of img2 = rows_of img" "cols_of img2 = cols_of img"
        using marked_dims [OF m2] d1 by simp_all
      have "card (?S - ?C) < card ?S"
        using fin reach_self [OF n] n by (intro psubset_card_mono) auto
      then have "card (value_cells img2 v) * 5 + (4 - (i + 1)) < card ?S * 5 + (4 - i)"
        unfolding S2 by simp
      from less.hyps [OF this inv2 less.prems(2), of cr cc "count + 1 + int (card ?A)"]
      obtain img3 where
        r2: "CheckNextPixel_loop (rows_of img) (cols_of img) img2 cr cc v
               (count + 1 + int (card ?A)) (i + 1) =
             Some (Inr (count + 1 + int (card ?A) + int (card ?B)), img3)"
        and m3: "marked img2 ?B img3"
        unfolding d2 S2 by auto
      have "reach ?S (nbs_from (cr, cc) i) = ?C \<union> reach ?S (nbs_from (cr, cc) (Suc i))"
        unfolding step by (rule reach_insert)
      then have R: "reach ?S (nbs_from (cr, cc) i) = ?C \<union> ?B"
        using reach_minus_component [of ?S "nbs_from (cr, cc) (Suc i)" ?n]
        by (simp add: Un_commute)
      have nA: "?n \<notin> ?A" using reach_subset [of "?S - {?n}"] by blast
      have dB: "?B \<inter> insert ?n ?A = {}"
        using reach_subset [of "?S - ?C" "nbs_from (cr, cc) (Suc i)"] C by blast
      have finA: "finite ?A" using reach_subset fin by (rule finite_subset [OF subset_trans [OF _ Diff_subset]])
      have finB: "finite ?B" using reach_subset fin by (rule finite_subset [OF subset_trans [OF _ Diff_subset]])
      have "card (insert ?n ?A \<union> ?B) = 1 + card ?A + card ?B"
        using finA finB nA dB by (rule card_component_union)
      moreover have "card (?C \<union> ?B) = card (insert ?n ?A \<union> ?B)"
        using C by (rule arg_cong [where f = "\<lambda>X. card (X \<union> ?B)"])
      ultimately have card: "card (?C \<union> ?B) = 1 + card ?A + card ?B" by simp
      have "marked img ({?n} \<union> ?A) img2" using m1 m2 by (rule marked_trans)
      then have "marked img (?C \<union> ?B) img3"
        using m3 C marked_trans by fastforce
      moreover have "CheckNextPixel_loop (rows_of img) (cols_of img) img cr cc v count i =
          Some (Inr (count + int (card (?C \<union> ?B))), img3)"
        unfolding eq r1 card using r2 by (simp add: add.assoc)
      ultimately show ?thesis unfolding R by blast
    qed
  qed
qed

section \<open>Regions and seeds\<close>

lemma adjE_value_cells_subset: "adjE (value_cells img v) \<subseteq> same_value_adjacent img"
  by (auto simp: adjE_def value_cells_def same_value_adjacent_def)

lemma same_value_adjacent_pix: "(p, q) \<in> (same_value_adjacent img)\<^sup>* \<Longrightarrow> pix img q = pix img p"
  by (induction rule: rtrancl_induct) (auto simp: same_value_adjacent_def)

lemma same_value_adjacent_sym:
  "(p, q) \<in> same_value_adjacent img \<Longrightarrow> (q, p) \<in> same_value_adjacent img"
  by (auto simp: same_value_adjacent_def adj4_sym)

lemma region_sym: "q \<in> region img p \<Longrightarrow> p \<in> region img q"
proof -
  have "(p, q) \<in> (same_value_adjacent img)\<^sup>* \<Longrightarrow> (q, p) \<in> (same_value_adjacent img)\<^sup>*"
    by (induction rule: rtrancl_induct)
      (auto intro: converse_rtrancl_into_rtrancl same_value_adjacent_sym)
  then show "q \<in> region img p \<Longrightarrow> p \<in> region img q" by (simp add: region_def)
qed

lemma region_trans: "q \<in> region img p \<Longrightarrow> r \<in> region img q \<Longrightarrow> r \<in> region img p"
  by (auto simp: region_def intro: rtrancl_trans)

lemma region_self: "p \<in> region img p"
  by (simp add: region_def)

lemma region_eq: "q \<in> region img p \<Longrightarrow> region img q = region img p"
  using region_sym region_trans by blast

lemma region_pix: "q \<in> region img p \<Longrightarrow> pix img q = pix img p"
  by (simp add: region_def same_value_adjacent_pix)

lemma region_eq_reach:
  assumes "p \<in> cells img"
  shows "region img p = reach (value_cells img (pix img p)) {p}"
proof
  let ?S = "value_cells img (pix img p)"
  have "(p, q) \<in> (same_value_adjacent img)\<^sup>* \<Longrightarrow> (p, q) \<in> (adjE ?S)\<^sup>*" for q
  proof (induction rule: rtrancl_induct)
    case base
    then show ?case by simp
  next
    case (step y z)
    have "pix img y = pix img p" using step.hyps(1) by (rule same_value_adjacent_pix)
    then have "(y, z) \<in> adjE ?S"
      using step.hyps(2) by (auto simp: adjE_def same_value_adjacent_def value_cells_def)
    with step.IH show ?case by (rule rtrancl_into_rtrancl)
  qed
  then show "region img p \<subseteq> reach ?S {p}"
    using assms by (auto simp: region_def reach_def value_cells_def)
next
  show "reach (value_cells img (pix img p)) {p} \<subseteq> region img p"
    using rtrancl_mono [OF adjE_value_cells_subset [of img "pix img p"]]
    by (auto simp: reach_def region_def)
qed

lemma region_subset_cells: "p \<in> cells img \<Longrightarrow> region img p \<subseteq> cells img"
  using reach_subset value_cells_subset unfolding region_eq_reach by blast

lemma finite_region: "p \<in> cells img \<Longrightarrow> finite (region img p)"
  using region_subset_cells finite_cells by (rule finite_subset)

text \<open>A seed: the outer scan marks an unvisited cell and calls CheckNextPixel with count 1.
  The call returns the size of the region of the seed and leaves the region marked.\<close>

lemma seed_correct:
  assumes "Image_inv img" "(row, col) \<in> cells img" "pix img (row, col) \<noteq> - 1"
  shows "\<exists>img1 img2. writeAt img row col (- 1) = (Inr (), img1) \<and>
           CheckNextPixel (rows_of img) (cols_of img) img1 row col (pix img (row, col)) 1 =
             Some (Inr (int (card (region img (row, col)))), img2) \<and>
           marked img (region img (row, col)) img2"
proof -
  let ?p = "(row, col)"
  let ?v = "pix img ?p"
  let ?S = "value_cells img ?v"
  let ?A = "reach (?S - {?p}) (nbs_from ?p 0)"
  obtain img1 where w: "writeAt img row col (- 1) = (Inr (), img1)"
    and m1: "marked img {?p} img1"
    using writeAt_cell [OF assms(1,2)] by blast
  have inv1: "Image_inv img1" using m1 assms(1) by (rule marked_inv)
  have d1: "rows_of img1 = rows_of img" "cols_of img1 = cols_of img"
    using marked_dims [OF m1] by simp_all
  have S1: "value_cells img1 ?v = ?S - {?p}"
    using m1 assms(3) by (rule marked_value_cells)
  obtain img2 where
    r: "CheckNextPixel_loop (rows_of img) (cols_of img) img1 row col ?v 1 0 =
          Some (Inr (1 + int (card ?A)), img2)"
    and m2: "marked img1 ?A img2"
    using CheckNextPixel_loop_correct [OF inv1 assms(3), of row col 1 0]
    unfolding d1 S1 by auto
  have pS: "?p \<in> ?S" using assms(2) by (simp add: value_cells_def)
  have reg: "region img ?p = insert ?p ?A"
    unfolding region_eq_reach [OF assms(2)] using pS by (rule reach_seed)
  have "?p \<notin> ?A" using reach_subset [of "?S - {?p}"] by blast
  moreover have "finite ?A"
    using reach_subset finite_value_cells
    by (rule finite_subset [OF subset_trans [OF _ Diff_subset]])
  ultimately have "card (insert ?p ?A) = 1 + card ?A" by simp
  then have c: "int (card (region img ?p)) = 1 + int (card ?A)" unfolding reg by simp
  have "marked img ({?p} \<union> ?A) img2" using m1 m2 by (rule marked_trans)
  then have "marked img (region img ?p) img2" unfolding reg by simp
  then show ?thesis using w r c by (simp add: CheckNextPixel_def)
qed

section \<open>The invariant of the outer scan\<close>

lemma scan_inv_init: "scan_inv img {} img (replicate 256 0)"
  by (simp add: scan_inv_def marked_refl)

lemma scanned_init: "scanned img 0 0"
  by (auto simp: scanned_def cells_def)

lemma scanned_skip:
  assumes "scanned img row col" "pix img (row, col) = - 1"
  shows "scanned img row (col + 1)"
  unfolding scanned_def
proof (intro ballI impI)
  fix p assume p: "p \<in> cells img" "fst p < row \<or> fst p = row \<and> snd p < col + 1"
  show "pix img p = - 1"
  proof (cases "p = (row, col)")
    case True
    then show ?thesis using assms(2) by simp
  next
    case False
    then have "fst p < row \<or> fst p = row \<and> snd p < col" using p(2) by (cases p) auto
    then show ?thesis using assms(1) p(1) unfolding scanned_def by blast
  qed
qed

lemma scanned_marked:
  assumes "scanned img row col" "marked img S img'" "(row, col) \<in> S"
  shows "scanned img' row (col + 1)"
  unfolding scanned_def
proof (intro ballI impI)
  fix p assume p: "p \<in> cells img'" "fst p < row \<or> fst p = row \<and> snd p < col + 1"
  have c: "p \<in> cells img" using p(1) marked_cells [OF assms(2)] by simp
  then have px: "pix img' p = (if p \<in> S then - 1 else pix img p)"
    using assms(2) by (simp add: marked_def)
  show "pix img' p = - 1"
  proof (cases "p = (row, col)")
    case True
    then show ?thesis using assms(3) px by simp
  next
    case False
    then have "fst p < row \<or> fst p = row \<and> snd p < col" using p(2) by (cases p) auto
    then have "pix img p = - 1" using assms(1) c unfolding scanned_def by blast
    then show ?thesis using px by simp
  qed
qed

lemma scanned_row_end:
  assumes "scanned img row col" "cols_of img \<le> col"
  shows "scanned img (row + 1) 0"
  unfolding scanned_def
proof (intro ballI impI)
  fix p assume p: "p \<in> cells img" "fst p < row + 1 \<or> fst p = row + 1 \<and> snd p < 0"
  have "0 \<le> snd p" "snd p < cols_of img" using p(1) by (auto simp: cells_def)
  then have "fst p < row \<or> fst p = row \<and> snd p < col" using p(2) assms(2) by auto
  then show "pix img p = - 1" using assms(1) p(1) unfolding scanned_def by blast
qed

lemma scanned_all:
  assumes "scanned img row 0" "rows_of img \<le> row" "p \<in> cells img"
  shows "pix img p = - 1"
proof -
  have "fst p < row" using assms(2,3) by (auto simp: cells_def)
  then show ?thesis using assms(1,3) unfolding scanned_def by blast
qed

text \<open>The region of an unvisited cell is the same in the current image as in the
  initial one, because the cells marked so far are whole regions.\<close>

lemma region_unvisited:
  assumes inv: "scan_inv img0 D img cfp" and p: "p \<in> cells img" "pix img p \<noteq> - 1"
  shows "p \<in> cells img0" "p \<notin> D" "pix img0 p = pix img p" "region img p = region img0 p"
proof -
  have m: "marked img0 D img" and closed: "\<And>q. q \<in> D \<Longrightarrow> region img0 q \<subseteq> D"
    using inv unfolding scan_inv_def by blast+
  have c: "cells img = cells img0" using m by (rule marked_cells)
  show p0: "p \<in> cells img0" using p(1) c by simp
  then have px: "pix img p = (if p \<in> D then - 1 else pix img0 p)"
    using m by (simp add: marked_def)
  show nD: "p \<notin> D" using px p(2) by auto
  show v: "pix img0 p = pix img p" using px nD by simp
  let ?v = "pix img p"
  let ?S = "value_cells img0 ?v"
  have S: "value_cells img ?v = ?S - D" using m p(2) by (rule marked_value_cells)
  have "reach (?S - D) {p} = reach ?S {p}"
  proof (rule reach_minus_closed)
    fix x y assume "(x, y) \<in> adjE ?S"
    then have e: "(x, y) \<in> same_value_adjacent img0"
      using adjE_value_cells_subset by blast
    then have "y \<in> region img0 x" by (auto simp: region_def)
    moreover from this have "x \<in> region img0 y" by (rule region_sym)
    ultimately show "x \<in> D \<longleftrightarrow> y \<in> D" using closed by blast
  qed (rule nD)
  then show "region img p = region img0 p"
    unfolding region_eq_reach [OF p(1)] region_eq_reach [OF p0] v S .
qed

lemma Max_insert_0_union:
  assumes "finite X"
  shows "Max (insert (0::int) (insert c X)) = max c (Max (insert 0 X))"
proof -
  have "insert (0::int) (insert c X) = insert c (insert 0 X)" by auto
  then show ?thesis using assms by (simp add: Max_insert)
qed

text \<open>One seed keeps the invariant of the scan.\<close>

lemma scan_inv_seed:
  assumes inv: "scan_inv img0 D img cfp"
    and p: "p \<in> cells img" "pix img p \<noteq> - 1" "0 \<le> pix img p" "pix img p < 256"
    and m2: "marked img (region img p) img2"
  shows "scan_inv img0 (D \<union> region img0 p) img2
           (if region_size img p > cfp ! nat (pix img p)
            then cfp[nat (pix img p) := region_size img p] else cfp)"
proof -
  let ?v = "pix img p"
  let ?R = "region img0 p"
  let ?cfp' = "if region_size img p > cfp ! nat ?v then cfp[nat ?v := region_size img p] else cfp"
  note u = region_unvisited [OF inv p(1,2)]
  have D: "D \<subseteq> cells img0" and m: "marked img0 D img" and len: "length cfp = 256"
    and DP: "\<And>q. q \<in> D \<Longrightarrow> 0 \<le> pix img0 q \<and> pix img0 q < 256 \<and> region img0 q \<subseteq> D"
    and cnt: "\<And>k. k < 256 \<Longrightarrow>
               cfp ! k = Max (insert 0 (region_size img0 ` {q \<in> D. pix img0 q = int k}))"
    using inv unfolding scan_inv_def by blast+
  have fD: "finite D" using D finite_cells by (rule finite_subset)
  have Rpix: "pix img0 q = ?v" if "q \<in> ?R" for q
    using region_pix [OF that] u(3) by simp
  have Rreg: "region img0 q = ?R" if "q \<in> ?R" for q
    using that by (rule region_eq)
  have 1: "D \<union> ?R \<subseteq> cells img0"
    using D region_subset_cells [OF u(1)] by blast
  have 2: "\<forall>q \<in> D \<union> ?R. 0 \<le> pix img0 q \<and> pix img0 q < 256 \<and> region img0 q \<subseteq> D \<union> ?R"
  proof
    fix q assume "q \<in> D \<union> ?R"
    then show "0 \<le> pix img0 q \<and> pix img0 q < 256 \<and> region img0 q \<subseteq> D \<union> ?R"
    proof
      assume "q \<in> D"
      from DP [OF this] show ?thesis by blast
    next
      assume "q \<in> ?R"
      from Rpix [OF this] Rreg [OF this] show ?thesis using p(3,4) by simp
    qed
  qed
  have 3: "marked img0 (D \<union> ?R) img2"
    using m m2 unfolding u(4) by (rule marked_trans)
  have 4: "length ?cfp' = 256" using len by simp
  have sz: "region_size img p = region_size img0 p" by (simp add: region_size_def u(4))
  have 5: "?cfp' ! k = Max (insert 0 (region_size img0 ` {q \<in> D \<union> ?R. pix img0 q = int k}))"
    if k: "k < 256" for k
  proof (cases "k = nat ?v")
    case True
    then have kv: "int k = ?v" using p(3) by simp
    have "pix img0 q = int k" if "q \<in> ?R" for q
      using Rpix [OF that] kv by simp
    then have "{q \<in> D \<union> ?R. pix img0 q = int k} = {q \<in> D. pix img0 q = int k} \<union> ?R"
      by blast
    moreover have "region_size img0 ` ?R = {region_size img0 p}"
    proof -
      have "region_size img0 q \<in> {region_size img0 p}" if "q \<in> ?R" for q
        using Rreg [OF that] by (simp only: region_size_def singletonI)
      moreover have "region_size img0 p \<in> region_size img0 ` ?R"
        using region_self by (rule imageI)
      ultimately show ?thesis by blast
    qed
    ultimately have "region_size img0 ` {q \<in> D \<union> ?R. pix img0 q = int k} =
        insert (region_size img0 p) (region_size img0 ` {q \<in> D. pix img0 q = int k})"
      by (simp add: image_Un)
    moreover have "finite (region_size img0 ` {q \<in> D. pix img0 q = int k})"
      using fD by simp
    ultimately have "Max (insert 0 (region_size img0 ` {q \<in> D \<union> ?R. pix img0 q = int k})) =
        max (region_size img0 p) (cfp ! k)"
      unfolding cnt [OF k] by (simp only: Max_insert_0_union)
    moreover have "?cfp' ! k = max (region_size img0 p) (cfp ! k)"
      unfolding sz True [symmetric] using len k by (simp add: max_def)
    ultimately show ?thesis by (simp only:)
  next
    case False
    then have "int k \<noteq> ?v" using p(3) by auto
    then have "pix img0 q \<noteq> int k" if "q \<in> ?R" for q
      using Rpix [OF that] by simp
    then have "{q \<in> D \<union> ?R. pix img0 q = int k} = {q \<in> D. pix img0 q = int k}"
      by blast
    moreover have "?cfp' ! k = cfp ! k" using False by simp
    ultimately show ?thesis using cnt [OF k] by simp
  qed
  show ?thesis
    unfolding scan_inv_def by (intro conjI allI impI) (fact 1, fact 2, fact 3, fact 4, erule 5)
qed

section \<open>The outer scan\<close>

lemma scan_inv_image:
  assumes "scan_inv img0 D img cfp" "Image_inv img0"
  shows "Image_inv img" "rows_of img = rows_of img0" "cols_of img = cols_of img0"
    "cells img = cells img0"
proof -
  have m: "marked img0 D img" using assms(1) unfolding scan_inv_def by blast
  show "Image_inv img" using m assms(2) by (rule marked_inv)
  show "rows_of img = rows_of img0" "cols_of img = cols_of img0"
    using marked_dims [OF m] by simp_all
  show "cells img = cells img0" using m by (rule marked_cells)
qed

lemma FindLargestConnected_cols_correct:
  assumes "Image_inv img0" "scan_inv img0 D img cfp" "scanned img row col"
    and "0 \<le> row" "row < rows_of img0" "0 \<le> col"
  shows "\<exists>res img'.
           FindLargestConnected_cols (rows_of img0) (cols_of img0) img cfp row col =
             Some (res, img') \<and>
           (case res of
              Inl e \<Rightarrow> e = UndefinedBehaviour \<and> bad_pixel img0
            | Inr cfp' \<Rightarrow> \<exists>D'. scan_inv img0 D' img' cfp' \<and> scanned img' (row + 1) 0)"
  using assms
proof (induction "nat (cols_of img0 - col)" arbitrary: D img cfp col rule: less_induct)
  case less
  note inv = less.prems(2)
  note im = scan_inv_image [OF inv less.prems(1)]
  let ?R = "rows_of img0" and ?C = "cols_of img0"
  show ?case
  proof (cases "col < ?C")
    case False
    have "scanned img (row + 1) 0"
      using less.prems(3) False by (intro scanned_row_end [of img row col]) (simp_all add: im)
    moreover have "FindLargestConnected_cols ?R ?C img cfp row col = Some (Inr cfp, img)"
      using False by (subst FindLargestConnected_cols.simps) simp
    ultimately show ?thesis using inv by auto
  next
    case True
    have c: "(row, col) \<in> cells img"
      using True less.prems(4,5,6) by (simp add: cells_def im)
    have rd: "readAt img row col = (Inr (pix img (row, col)), img)"
      using im(1) c by (rule readAt_cell)
    have dec: "nat (?C - (col + 1)) < nat (?C - col)" using True by simp
    have col1: "0 \<le> col + 1" using less.prems(6) by simp
    show ?thesis
    proof (cases "pix img (row, col) = - 1")
      case m1: True
      have "FindLargestConnected_cols ?R ?C img cfp row col =
            FindLargestConnected_cols ?R ?C img cfp row (col + 1)"
        using True m1 by (subst FindLargestConnected_cols.simps) (simp add: rd)
      moreover have "scanned img row (col + 1)"
        using less.prems(3) m1 by (rule scanned_skip)
      ultimately show ?thesis
        using less.hyps [OF dec less.prems(1) inv _ less.prems(4,5) col1] by simp
    next
      case False
      let ?v = "pix img (row, col)"
      obtain img1 img2 where w: "writeAt img row col (- 1) = (Inr (), img1)"
        and r: "CheckNextPixel ?R ?C img1 row col ?v 1 =
                  Some (Inr (region_size img (row, col)), img2)"
        and m2: "marked img (region img (row, col)) img2"
        using seed_correct [OF im(1) c False] unfolding im(2,3) region_size_def by blast
      note u = region_unvisited [OF inv c False]
      show ?thesis
      proof (cases "?v < 0 \<or> 256 \<le> ?v")
        case bad: True
        have "FindLargestConnected_cols ?R ?C img cfp row col =
              Some (Inl UndefinedBehaviour, img2)"
          using True False bad by (subst FindLargestConnected_cols.simps) (simp add: rd w r)
        moreover have "bad_pixel img0"
          unfolding bad_pixel_def using u(1) u(3) bad False by (intro bexI [of _ "(row, col)"]) auto
        ultimately show ?thesis by simp
      next
        case good: False
        let ?cfp' = "if region_size img (row, col) > cfp ! nat ?v
                     then cfp[nat ?v := region_size img (row, col)] else cfp"
        have "FindLargestConnected_cols ?R ?C img cfp row col =
              FindLargestConnected_cols ?R ?C img2 ?cfp' row (col + 1)"
          using True False good by (subst FindLargestConnected_cols.simps) (simp add: rd w r)
        moreover have "scan_inv img0 (D \<union> region img0 (row, col)) img2 ?cfp'"
          using inv c False _ _ m2 by (rule scan_inv_seed) (use good in simp_all)
        moreover have "scanned img2 row (col + 1)"
          using less.prems(3) m2 region_self by (rule scanned_marked)
        ultimately show ?thesis
          using less.hyps [OF dec less.prems(1) _ _ less.prems(4,5) col1] by simp
      qed
    qed
  qed
qed

lemma FindLargestConnected_rows_correct:
  assumes "Image_inv img0" "scan_inv img0 D img cfp" "scanned img row 0" "0 \<le> row"
  shows "\<exists>res img'.
           FindLargestConnected_rows (rows_of img0) (cols_of img0) img cfp row =
             Some (res, img') \<and>
           (case res of
              Inl e \<Rightarrow> e = UndefinedBehaviour \<and> bad_pixel img0
            | Inr cfp' \<Rightarrow>
                \<exists>D'. scan_inv img0 D' img' cfp' \<and> (\<forall>p \<in> cells img0. pix img' p = - 1))"
  using assms
proof (induction "nat (rows_of img0 - row)" arbitrary: D img cfp row rule: less_induct)
  case less
  note inv = less.prems(2)
  note im = scan_inv_image [OF inv less.prems(1)]
  let ?R = "rows_of img0" and ?C = "cols_of img0"
  show ?case
  proof (cases "row < ?R")
    case False
    have "\<forall>p \<in> cells img0. pix img p = - 1"
      using scanned_all [OF less.prems(3)] False by (simp add: im)
    moreover have "FindLargestConnected_rows ?R ?C img cfp row = Some (Inr cfp, img)"
      using False by (subst FindLargestConnected_rows.simps) simp
    ultimately show ?thesis using inv by auto
  next
    case True
    obtain res img1 where
      c: "FindLargestConnected_cols ?R ?C img cfp row 0 = Some (res, img1)"
      and cr: "case res of
                 Inl e \<Rightarrow> e = UndefinedBehaviour \<and> bad_pixel img0
               | Inr cfp' \<Rightarrow> \<exists>D'. scan_inv img0 D' img1 cfp' \<and> scanned img1 (row + 1) 0"
      using FindLargestConnected_cols_correct [OF less.prems(1) inv less.prems(3,4) True]
      by auto
    show ?thesis
    proof (cases res)
      case (Inl e)
      have "FindLargestConnected_rows ?R ?C img cfp row = Some (Inl e, img1)"
        using True by (subst FindLargestConnected_rows.simps) (simp add: c Inl)
      then show ?thesis using cr Inl by simp
    next
      case (Inr cfp1)
      then obtain D1 where inv1: "scan_inv img0 D1 img1 cfp1"
        and sc1: "scanned img1 (row + 1) 0"
        using cr by auto
      have "FindLargestConnected_rows ?R ?C img cfp row =
            FindLargestConnected_rows ?R ?C img1 cfp1 (row + 1)"
        using True by (subst FindLargestConnected_rows.simps) (simp add: c Inr)
      moreover have "nat (?R - (row + 1)) < nat (?R - row)" using True by simp
      moreover have "0 \<le> row + 1" using less.prems(4) by simp
      ultimately show ?thesis
        using less.hyps [OF _ less.prems(1) inv1 sc1] by simp
    qed
  qed
qed

text \<open>The last loop takes the maximum of the counters and 0.\<close>

lemma fold_max_nth:
  "fold (\<lambda>i m. if xs ! i > m then xs ! i else m) [0..<n] (m0::int) =
   Max (insert m0 ((!) xs ` {..<n}))"
proof (induction n)
  case 0
  then show ?case by simp
next
  case (Suc n)
  define M where "M = Max (insert m0 ((!) xs ` {..<n}))"
  have "insert m0 ((!) xs ` {..<Suc n}) = insert (xs ! n) (insert m0 ((!) xs ` {..<n}))"
    by (auto simp: lessThan_Suc)
  then have "Max (insert m0 ((!) xs ` {..<Suc n})) = max (xs ! n) M"
    unfolding M_def by (simp add: Max_insert)
  moreover have "fold (\<lambda>i m. if xs ! i > m then xs ! i else m) [0..<Suc n] m0 =
                 (if M < xs ! n then xs ! n else M)"
    using Suc unfolding M_def [symmetric] by simp
  moreover have "(if M < xs ! n then xs ! n else M) = max (xs ! n) M"
    by (simp add: max_def)
  ultimately show ?case by (simp only:)
qed

lemma maxCount_loop_Max: "maxCount_loop cfp = Max (insert 0 ((!) cfp ` {..<256}))"
  unfolding maxCount_loop_def by (rule fold_max_nth)

lemma scan_inv_final:
  assumes inv: "scan_inv img0 D img cfp" and all: "\<forall>p \<in> cells img0. pix img p = - 1"
  shows "\<not> bad_pixel img0" "maxCount_loop cfp = largest_unmarked_region img0"
proof -
  let ?U = "{p \<in> cells img0. pix img0 p \<noteq> - 1}"
  have D: "D \<subseteq> cells img0" and m: "marked img0 D img"
    and DP: "\<And>q. q \<in> D \<Longrightarrow> 0 \<le> pix img0 q \<and> pix img0 q < 256"
    and cnt: "\<And>k. k < 256 \<Longrightarrow>
               cfp ! k = Max (insert 0 (region_size img0 ` {q \<in> D. pix img0 q = int k}))"
    using inv unfolding scan_inv_def by blast+
  have fD: "finite D" using D finite_cells by (rule finite_subset)
  have px: "pix img p = (if p \<in> D then - 1 else pix img0 p)" if "p \<in> cells img0" for p
    using m that unfolding marked_def by blast
  have inD: "p \<in> D" if "p \<in> cells img0" "pix img0 p \<noteq> - 1" for p
    using px [OF that(1)] all that by (cases "p \<in> D") auto
  have DU: "D = ?U"
  proof
    show "D \<subseteq> ?U" using D DP by fastforce
    show "?U \<subseteq> D" using inD by blast
  qed
  show "\<not> bad_pixel img0"
    unfolding bad_pixel_def
  proof
    assume "\<exists>p \<in> cells img0. pix img0 p < - 1 \<or> 255 < pix img0 p"
    then obtain p where p: "p \<in> cells img0" "pix img0 p < - 1 \<or> 255 < pix img0 p" by blast
    moreover from this have "pix img0 p \<noteq> - 1" by auto
    ultimately have "p \<in> D" using inD by blast
    from DP [OF this] p(2) show False by simp
  qed
  let ?f = "region_size img0"
  let ?L = "insert 0 ((!) cfp ` {..<256})"
  let ?M = "insert 0 (?f ` D)"
  have fM: "finite ?M" "?M \<noteq> {}" using fD by simp_all
  have fL: "finite ?L" "?L \<noteq> {}" by simp_all
  have "Max ?L \<le> Max ?M"
  proof (subst Max_le_iff [OF fL], intro ballI)
    fix x assume "x \<in> ?L"
    then consider "x = 0" | k where "k < 256" "x = cfp ! k" by auto
    then show "x \<le> Max ?M"
    proof cases
      case 1
      then show ?thesis using fM by simp
    next
      case 2
      let ?X = "insert 0 (?f ` {q \<in> D. pix img0 q = int k})"
      have "?X \<subseteq> ?M" by auto
      then have "Max ?X \<le> Max ?M" using fM by (intro Max_mono) simp_all
      then show ?thesis using 2 cnt by simp
    qed
  qed
  moreover have "Max ?M \<le> Max ?L"
  proof (subst Max_le_iff [OF fM], intro ballI)
    fix x assume "x \<in> ?M"
    then consider "x = 0" | p where "p \<in> D" "x = ?f p" by auto
    then show "x \<le> Max ?L"
    proof cases
      case 1
      then show ?thesis by simp
    next
      case 2
      let ?k = "nat (pix img0 p)"
      have k: "?k < 256" "int ?k = pix img0 p" using DP [OF 2(1)] by (simp_all add: nat_less_iff)
      let ?X = "insert 0 (?f ` {q \<in> D. pix img0 q = int ?k})"
      have "finite ?X" using fD by simp
      moreover have "x \<in> ?X" using 2 k by simp
      ultimately have "x \<le> Max ?X" by (rule Max_ge)
      also have "Max ?X = cfp ! ?k" using cnt [OF k(1)] by simp
      also have "\<dots> \<le> Max ?L" using k(1) by (intro Max_ge) simp_all
      finally show ?thesis .
    qed
  qed
  ultimately have "Max ?L = Max ?M" by (rule order_antisym)
  then show "maxCount_loop cfp = largest_unmarked_region img0"
    unfolding maxCount_loop_Max largest_unmarked_region_def DU region_size_def .
qed

text \<open>
  FindLargestConnected on an image that satisfies the class invariant, called with the
  dimensions of the image: the call returns. Its result is the largest size of a region
  of unmarked cells when every pixel is the marker or in \<open>0..255\<close>; otherwise the scan
  reaches an access outside \<^verbatim>\<open>countForPixel\<close>.
\<close>

lemma FindLargestConnected_correct:
  assumes "Image_inv img"
  shows "\<exists>res img'.
           FindLargestConnected (rows_of img) (cols_of img) img = Some (res, img') \<and>
           (case res of
              Inl e \<Rightarrow> e = UndefinedBehaviour \<and> bad_pixel img
            | Inr n \<Rightarrow> \<not> bad_pixel img \<and> n = largest_unmarked_region img)"
proof -
  obtain res img' where
    r: "FindLargestConnected_rows (rows_of img) (cols_of img) img (replicate 256 0) 0 =
          Some (res, img')"
    and c: "case res of
              Inl e \<Rightarrow> e = UndefinedBehaviour \<and> bad_pixel img
            | Inr cfp' \<Rightarrow>
                \<exists>D'. scan_inv img D' img' cfp' \<and> (\<forall>p \<in> cells img. pix img' p = - 1)"
    using FindLargestConnected_rows_correct [OF assms scan_inv_init scanned_init]
    by auto
  show ?thesis
  proof (cases res)
    case (Inl e)
    then show ?thesis using r c by (simp add: FindLargestConnected_def)
  next
    case (Inr cfp')
    then obtain D' where "scan_inv img D' img' cfp'" "\<forall>p \<in> cells img. pix img' p = - 1"
      using c by auto
    from scan_inv_final [OF this] show ?thesis
      using r Inr by (simp add: FindLargestConnected_def)
  qed
qed

section \<open>Steps never unmark\<close>

lemma marks_only_refl: "marks_only img img"
  by (simp add: marks_only_def)

lemma marks_only_trans:
  assumes "marks_only img img1" "marks_only img1 img2"
  shows "marks_only img img2"
  using assms unfolding marks_only_def by (metis (no_types, lifting))

lemma marks_only_dims:
  "marks_only img img' \<Longrightarrow> rows_of img' = rows_of img \<and> cols_of img' = cols_of img"
  by (simp add: marks_only_def)

lemma readAt_image: "readAt img r c = (a, img') \<Longrightarrow> img' = img"
  by (auto simp: readAt_def split: sum.splits)

lemma marks_only_update: "marks_only img (img\<lparr>data_of := (data_of img)[k := - 1]\<rparr>)"
  unfolding marks_only_def
proof (intro conjI allI impI)
  fix j assume "j < length (data_of img)"
  then show "data_of (img\<lparr>data_of := (data_of img)[k := - 1]\<rparr>) ! j = data_of img ! j \<or>
             data_of (img\<lparr>data_of := (data_of img)[k := - 1]\<rparr>) ! j = - 1"
    by (cases "j = k") simp_all
qed simp_all

lemma writeAt_marks_only:
  assumes "writeAt img r c (- 1) = (a, img')"
  shows "marks_only img img'"
proof (cases "At img r c")
  case (Inl e)
  then show ?thesis using assms by (simp add: writeAt_def marks_only_refl)
next
  case (Inr k)
  then have "img' = img\<lparr>data_of := (data_of img)[k := - 1]\<rparr>"
    using assms by (simp add: writeAt_def)
  then show ?thesis by (simp only: marks_only_update)
qed

lemma At_not_OutOfRange:
  assumes "0 \<le> r" "r < rows_of img" "0 \<le> c" "c < cols_of img"
  shows "At img r c \<noteq> Inl OutOfRange"
  using assms by (simp add: At_def Let_def)

lemma readAt_not_OutOfRange:
  assumes "0 \<le> r" "r < rows_of img" "0 \<le> c" "c < cols_of img"
  shows "fst (readAt img r c) \<noteq> Inl OutOfRange"
  using At_not_OutOfRange [OF assms] by (auto simp: readAt_def split: sum.splits)

lemma writeAt_not_OutOfRange:
  assumes "0 \<le> r" "r < rows_of img" "0 \<le> c" "c < cols_of img"
  shows "fst (writeAt img r c v) \<noteq> Inl OutOfRange"
  using At_not_OutOfRange [OF assms] by (auto simp: writeAt_def split: sum.splits)

lemma safe_step_trans:
  assumes "marks_only img img1" "safe_step rows cols img1 y"
  shows "safe_step rows cols img y"
  using assms marks_only_trans [of img img1 "snd y"] marks_only_dims [of img img1]
  by (simp add: safe_step_def)

lemma CheckNextPixel_loop_safe:
  assumes "CheckNextPixel_loop rows cols img cr cc v count i = Some y"
  shows "safe_step rows cols img y"
proof (rule CheckNextPixel_loop.raw_induct
    [where P = "\<lambda>rows cols img cr cc v count i y. safe_step rows cols img y", OF _ assms],
    goal_cases)
  case (1 f rows cols img cr cc v count i y)
  show ?case
  proof (cases "i < 4")
    case False
    then show ?thesis using 1(2) by (auto simp: safe_step_def marks_only_refl)
  next
    case True
    let ?nr = "cr + dr i" and ?nc = "cc + dc i"
    show ?thesis
    proof (cases "0 \<le> ?nr \<and> ?nr < rows \<and> 0 \<le> ?nc \<and> ?nc < cols")
      case False
      then have "f rows cols img cr cc v count (i + 1) = Some y"
        using 1(2) True by (auto simp: Let_def)
      then show ?thesis by (rule 1(1))
    next
      case inb: True
      obtain a img0 where rd: "readAt img ?nr ?nc = (a, img0)" by (cases "readAt img ?nr ?nc")
      have img0: "img0 = img" using rd by (rule readAt_image)
      have ra: "rows \<le> rows_of img \<and> cols \<le> cols_of img \<longrightarrow> a \<noteq> Inl OutOfRange"
        using readAt_not_OutOfRange [of ?nr img ?nc] inb rd by auto
      show ?thesis
      proof (cases a)
        case (Inl e)
        then have "y = (Inl e, img)" using 1(2) True inb rd img0 by (simp add: Let_def)
        then show ?thesis using ra Inl by (simp add: safe_step_def marks_only_refl)
      next
        case (Inr p)
        show ?thesis
        proof (cases "p = v")
          case False
          then have "f rows cols img cr cc v count (i + 1) = Some y"
            using 1(2) True inb rd img0 Inr by (simp add: Let_def)
          then show ?thesis by (rule 1(1))
        next
          case pv: True
          obtain b img1 where w: "writeAt img ?nr ?nc (- 1) = (b, img1)"
            by (cases "writeAt img ?nr ?nc (- 1)")
          have m1: "marks_only img img1" using w by (rule writeAt_marks_only)
          have wb: "rows \<le> rows_of img \<and> cols \<le> cols_of img \<longrightarrow> b \<noteq> Inl OutOfRange"
            using writeAt_not_OutOfRange [of ?nr img ?nc "- 1"] inb w by auto
          show ?thesis
          proof (cases b)
            case (Inl e)
            then have "y = (Inl e, img1)"
              using 1(2) True inb rd img0 Inr pv w by (simp add: Let_def)
            then show ?thesis using wb Inl m1 by (simp add: safe_step_def)
          next
            case Inr2: (Inr u)
            have eq: "Option.bind (f rows cols img1 ?nr ?nc v (count + 1) 0)
                   (\<lambda>res. case res of
                      (Inl e, img2) \<Rightarrow> Some (Inl e, img2)
                    | (Inr count2, img2) \<Rightarrow> f rows cols img2 cr cc v count2 (i + 1)) = Some y"
              using 1(2) True inb rd img0 Inr pv w Inr2 by (simp add: Let_def)
            then obtain y1 where y1: "f rows cols img1 ?nr ?nc v (count + 1) 0 = Some y1"
              and k: "(case y1 of
                      (Inl e, img2) \<Rightarrow> Some (Inl e, img2)
                    | (Inr count2, img2) \<Rightarrow> f rows cols img2 cr cc v count2 (i + 1)) = Some y"
              by (auto simp: bind_eq_Some_conv)
            have s1: "safe_step rows cols img1 y1" using y1 by (rule 1(1))
            obtain r1 img2 where y1p: "y1 = (r1, img2)" by (cases y1)
            have "safe_step rows cols img1 y"
            proof (cases r1)
              case (Inl e)
              then have "y = y1" using k y1p by simp
              then show ?thesis using s1 by simp
            next
              case (Inr count2)
              then have "f rows cols img2 cr cc v count2 (i + 1) = Some y" using k y1p by simp
              then have "safe_step rows cols img2 y" by (rule 1(1))
              moreover have "marks_only img1 img2" using s1 y1p by (simp add: safe_step_def)
              ultimately show ?thesis by (rule safe_step_trans [rotated])
            qed
            with m1 show ?thesis by (rule safe_step_trans)
          qed
        qed
      qed
    qed
  qed
qed

lemma CheckNextPixel_safe:
  "CheckNextPixel rows cols img cr cc v count = Some y \<Longrightarrow> safe_step rows cols img y"
  unfolding CheckNextPixel_def by (rule CheckNextPixel_loop_safe)

lemma FindLargestConnected_cols_safe:
  assumes "FindLargestConnected_cols rows cols img cfp row col = Some y" "0 \<le> col"
  shows "marks_only img (snd y) \<and> (0 \<le> row \<and> row < rows \<longrightarrow> safe_step rows cols img y)"
  using assms
proof (induction "nat (cols - col)" arbitrary: img cfp col rule: less_induct)
  case less
  note eq = less.prems(1) [unfolded FindLargestConnected_cols.simps [of rows cols img cfp row col]]
  let ?Q = "\<lambda>img y. marks_only img (snd y) \<and>
                     (0 \<le> row \<and> row < rows \<longrightarrow> safe_step rows cols img y)"
  have lift: "?Q imgA y" if "marks_only imgA imgB" "?Q imgB y" for imgA imgB y
    using that safe_step_trans [of imgA imgB rows cols y]
      marks_only_trans [of imgA imgB "snd y"]
    by blast
  show ?case
  proof (cases "col < cols")
    case False
    then have "y = (Inr cfp, img)" using eq by simp
    then show ?thesis by (simp add: safe_step_def marks_only_refl)
  next
    case True
    have dec: "nat (cols - (col + 1)) < nat (cols - col)" using True by simp
    have col1: "0 \<le> col + 1" using less.prems(2) by simp
    obtain a img0 where rd: "readAt img row col = (a, img0)" by (cases "readAt img row col")
    have img0: "img0 = img" using rd by (rule readAt_image)
    have inb: "0 \<le> row \<and> row < rows_of img \<and> 0 \<le> col \<and> col < cols_of img"
      if "0 \<le> row \<and> row < rows" "rows \<le> rows_of img \<and> cols \<le> cols_of img"
      using that True less.prems(2) by simp
    have ra: "0 \<le> row \<and> row < rows \<Longrightarrow> rows \<le> rows_of img \<and> cols \<le> cols_of img \<Longrightarrow>
              a \<noteq> Inl OutOfRange"
      using readAt_not_OutOfRange [of row img col] inb rd by auto
    show ?thesis
    proof (cases a)
      case (Inl e)
      then have "y = (Inl e, img)" using eq True rd img0 by simp
      then show ?thesis using ra Inl by (auto simp: safe_step_def marks_only_refl)
    next
      case (Inr p)
      show ?thesis
      proof (cases "p = - 1")
        case True
        then have "FindLargestConnected_cols rows cols img cfp row (col + 1) = Some y"
          using eq \<open>col < cols\<close> rd img0 Inr by simp
        from less.hyps [OF dec this col1] show ?thesis .
      next
        case False
        obtain b img1 where w: "writeAt img row col (- 1) = (b, img1)"
          by (cases "writeAt img row col (- 1)")
        have m1: "marks_only img img1" using w by (rule writeAt_marks_only)
        have wb: "0 \<le> row \<and> row < rows \<Longrightarrow> rows \<le> rows_of img \<and> cols \<le> cols_of img \<Longrightarrow>
                  b \<noteq> Inl OutOfRange"
          using writeAt_not_OutOfRange [of row img col "- 1"] inb w by auto
        show ?thesis
        proof (cases b)
          case (Inl e)
          then have "y = (Inl e, img1)" using eq True rd img0 Inr False w by simp
          then show ?thesis using wb Inl m1 by (auto simp: safe_step_def)
        next
          case Inr2: (Inr u)
          have eq2: "(case CheckNextPixel rows cols img1 row col p 1 of
                       None \<Rightarrow> None
                     | Some (Inl e, img2) \<Rightarrow> Some (Inl e, img2)
                     | Some (Inr currentCount, img2) \<Rightarrow>
                         if p < 0 \<or> p \<ge> 256 then Some (Inl UndefinedBehaviour, img2)
                         else FindLargestConnected_cols rows cols img2
                                (if currentCount > cfp ! nat p then cfp[nat p := currentCount]
                                 else cfp) row (col + 1)) = Some y"
            using eq True rd img0 Inr False w Inr2 by simp
          then obtain r img2 where c: "CheckNextPixel rows cols img1 row col p 1 = Some (r, img2)"
            by (cases "CheckNextPixel rows cols img1 row col p 1") auto
          have s: "safe_step rows cols img1 (r, img2)" using c by (rule CheckNextPixel_safe)
          then have m2: "marks_only img1 img2" by (simp add: safe_step_def)
          have "?Q img1 y"
          proof (cases r)
            case (Inl e)
            then have "y = (Inl e, img2)" using eq2 c by simp
            then show ?thesis using s Inl by (simp add: safe_step_def)
          next
            case (Inr cnt)
            show ?thesis
            proof (cases "p < 0 \<or> p \<ge> 256")
              case True
              then have "y = (Inl UndefinedBehaviour, img2)" using eq2 c Inr by auto
              then show ?thesis using m2 by (simp add: safe_step_def)
            next
              case False
              then have "FindLargestConnected_cols rows cols img2
                           (if cnt > cfp ! nat p then cfp[nat p := cnt] else cfp) row (col + 1) =
                         Some y"
                using eq2 c Inr by simp
              from less.hyps [OF dec this col1] have "?Q img2 y" .
              with m2 show ?thesis by (rule lift)
            qed
          qed
          with m1 show ?thesis by (rule lift)
        qed
      qed
    qed
  qed
qed

lemma FindLargestConnected_rows_safe:
  assumes "FindLargestConnected_rows rows cols img cfp row = Some y" "0 \<le> row"
  shows "safe_step rows cols img y"
  using assms
proof (induction "nat (rows - row)" arbitrary: img cfp row rule: less_induct)
  case less
  note eq = less.prems(1) [unfolded FindLargestConnected_rows.simps [of rows cols img cfp row]]
  show ?case
  proof (cases "row < rows")
    case False
    then have "y = (Inr cfp, img)" using eq by simp
    then show ?thesis by (simp add: safe_step_def marks_only_refl)
  next
    case True
    obtain r img1 where c: "FindLargestConnected_cols rows cols img cfp row 0 = Some (r, img1)"
      using eq True by (cases "FindLargestConnected_cols rows cols img cfp row 0") auto
    have s: "safe_step rows cols img (r, img1)"
      using FindLargestConnected_cols_safe [OF c] True less.prems(2) by simp
    show ?thesis
    proof (cases r)
      case (Inl e)
      then have "y = (Inl e, img1)" using eq True c by simp
      then show ?thesis using s Inl by simp
    next
      case (Inr cfp1)
      then have "FindLargestConnected_rows rows cols img1 cfp1 (row + 1) = Some y"
        using eq True c by simp
      moreover have "nat (rows - (row + 1)) < nat (rows - row)" using True by simp
      moreover have "0 \<le> row + 1" using less.prems(2) by simp
      ultimately have "safe_step rows cols img1 y" using less.hyps by blast
      moreover have "marks_only img img1" using s by (simp add: safe_step_def)
      ultimately show ?thesis by (rule safe_step_trans [rotated])
    qed
  qed
qed

lemma FindLargestConnected_safe:
  assumes "FindLargestConnected rows cols img = Some y"
  shows "safe_step rows cols img y"
proof -
  obtain r img1 where
    c: "FindLargestConnected_rows rows cols img (replicate 256 0) 0 = Some (r, img1)"
    using assms unfolding FindLargestConnected_def
    by (cases "FindLargestConnected_rows rows cols img (replicate 256 0) 0") auto
  have s: "safe_step rows cols img (r, img1)"
    using FindLargestConnected_rows_safe [OF c] by simp
  show ?thesis
  proof (cases r)
    case (Inl e)
    then have "y = (Inl e, img1)" using assms c by (simp add: FindLargestConnected_def)
    then show ?thesis using s Inl by (simp add: safe_step_def)
  next
    case (Inr cfp)
    then have "y = (Inr (maxCount_loop cfp), img1)"
      using assms c by (simp add: FindLargestConnected_def)
    then show ?thesis using s by (simp add: safe_step_def)
  qed
qed

section \<open>Grids of one value\<close>

lemma uniform_image_inv:
  assumes "0 \<le> R" "0 \<le> C"
  shows "Image_inv (uniform_image R C v)"
  using assms by (simp add: Image_inv_def uniform_image_def)

lemma uniform_image_cells: "cells (uniform_image R C v) = {0..<R} \<times> {0..<C}"
  by (simp add: cells_def uniform_image_def)

lemma uniform_image_pix:
  assumes "0 \<le> R" "0 \<le> C" "p \<in> cells (uniform_image R C v)"
  shows "pix (uniform_image R C v) p = v"
proof -
  obtain r c where p: "p = (r, c)" by (cases p)
  have "nat (r * cols_of (uniform_image R C v) + c) < length (data_of (uniform_image R C v))"
    using uniform_image_inv [OF assms(1,2)] assms(3) unfolding p by (rule cell_index_in_data)
  then show ?thesis by (simp add: pix_def p uniform_image_def)
qed

lemma uniform_image_value_cells:
  assumes "0 \<le> R" "0 \<le> C"
  shows "value_cells (uniform_image R C v) v = {0..<R} \<times> {0..<C}"
  using uniform_image_pix [OF assms] by (auto simp: value_cells_def uniform_image_cells)

text \<open>A rectangle of cells is connected: along row 0, then down the column.\<close>

lemma rectangle_row:
  assumes "0 < R" "int n < C"
  shows "((0, 0), (0, int n)) \<in> (adjE ({0..<R} \<times> {0..<C}))\<^sup>*"
  using assms(2)
proof (induction n)
  case 0
  then show ?case by simp
next
  case (Suc n)
  then have "((0, 0), (0, int n)) \<in> (adjE ({0..<R} \<times> {0..<C}))\<^sup>*" by simp
  moreover have "((0, int n), (0, int (Suc n))) \<in> adjE ({0..<R} \<times> {0..<C})"
    using Suc.prems assms(1) by (simp add: adjE_def adj4_def)
  ultimately show ?case by (rule rtrancl_into_rtrancl)
qed

lemma rectangle_col:
  assumes "0 \<le> c" "c < C" "int m < R"
  shows "((0, c), (int m, c)) \<in> (adjE ({0..<R} \<times> {0..<C}))\<^sup>*"
  using assms(3)
proof (induction m)
  case 0
  then show ?case by simp
next
  case (Suc m)
  then have "((0, c), (int m, c)) \<in> (adjE ({0..<R} \<times> {0..<C}))\<^sup>*" by simp
  moreover have "((int m, c), (int (Suc m), c)) \<in> adjE ({0..<R} \<times> {0..<C})"
    using Suc.prems assms(1,2) by (simp add: adjE_def adj4_def)
  ultimately show ?case by (rule rtrancl_into_rtrancl)
qed

lemma rectangle_connected:
  assumes "(r, c) \<in> {0..<R} \<times> {0..<C}"
  shows "(r, c) \<in> reach ({0..<R} \<times> {0..<C}) {(0, 0)}"
proof -
  have b: "0 \<le> r" "r < R" "0 \<le> c" "c < C" using assms by simp_all
  have "((0, 0), (0, int (nat c))) \<in> (adjE ({0..<R} \<times> {0..<C}))\<^sup>*"
    using b by (intro rectangle_row) simp_all
  moreover have "((0, c), (int (nat r), c)) \<in> (adjE ({0..<R} \<times> {0..<C}))\<^sup>*"
    using b by (intro rectangle_col) simp_all
  ultimately have "((0, 0), (r, c)) \<in> (adjE ({0..<R} \<times> {0..<C}))\<^sup>*"
    using b by simp
  then show ?thesis using b by (simp add: reach_def)
qed

lemma uniform_image_region:
  assumes "1 \<le> R" "1 \<le> C" "p \<in> cells (uniform_image R C v)"
  shows "region (uniform_image R C v) p = {0..<R} \<times> {0..<C}"
proof -
  let ?img = "uniform_image R C v"
  let ?S = "{0..<R} \<times> {0..<C}"
  have nn: "0 \<le> R" "0 \<le> C" using assms(1,2) by simp_all
  have o: "(0, 0) \<in> cells ?img" using assms(1,2) by (simp add: uniform_image_cells)
  have "region ?img (0, 0) = reach ?S {(0, 0)}"
    unfolding region_eq_reach [OF o] uniform_image_pix [OF nn o]
      uniform_image_value_cells [OF nn] ..
  moreover have "reach ?S {(0, 0)} = ?S"
    using reach_subset [of ?S "{(0, 0)}"] rectangle_connected [of _ _ R C] by auto
  ultimately have r0: "region ?img (0, 0) = ?S" by simp
  then have "p \<in> region ?img (0, 0)" using assms(3) by (simp add: uniform_image_cells)
  then have "region ?img p = region ?img (0, 0)" by (rule region_eq)
  then show ?thesis using r0 by simp
qed

lemma card_rectangle:
  assumes "0 \<le> R" "0 \<le> C"
  shows "int (card ({0..<R} \<times> {0..<C})) = R * C"
  using assms by (simp add: card_cartesian_product)

lemma uniform_image_largest:
  assumes "1 \<le> R" "1 \<le> C" "v \<noteq> - 1"
  shows "largest_unmarked_region (uniform_image R C v) = R * C"
proof -
  let ?img = "uniform_image R C v"
  let ?S = "{0..<R} \<times> {0..<C}"
  have nn: "0 \<le> R" "0 \<le> C" using assms(1,2) by simp_all
  have "{p \<in> cells ?img. pix ?img p \<noteq> - 1} = cells ?img"
    using uniform_image_pix [OF nn] assms(3) by auto
  moreover have "(\<lambda>p. int (card (region ?img p))) ` cells ?img = {R * C}"
  proof -
    have "int (card (region ?img p)) = R * C" if "p \<in> cells ?img" for p
      using uniform_image_region [OF assms(1,2) that] card_rectangle [OF nn] by simp
    moreover have "(0, 0) \<in> cells ?img" using assms(1,2) by (simp add: uniform_image_cells)
    ultimately show ?thesis by (auto simp: image_def)
  qed
  moreover have "0 \<le> R * C" using nn by simp
  ultimately show ?thesis by (simp add: largest_unmarked_region_def)
qed

section \<open>Correctness of the scan\<close>

lemma pix_in_data:
  assumes "Image_inv img" "p \<in> cells img"
  shows "pix img p \<in> set (data_of img)"
proof -
  obtain r c where p: "p = (r, c)" by (cases p)
  have "nat (r * cols_of img + c) < length (data_of img)"
    using assms unfolding p by (rule cell_index_in_data)
  then show ?thesis by (simp add: pix_def p)
qed

lemma myImage_inv: "Image_inv myImage"
  by (simp add: Image_inv_def myImage_def main_data_def)

lemma myImage_run:
  "FindLargestConnected 5 6 myImage =
     Some (Inr 9, \<lparr>rows_of = 5, cols_of = 6, data_of = replicate 30 (- 1)\<rparr>)"
  by code_simp

lemma barrier_image_inv: "Image_inv barrier_image"
  by (simp add: Image_inv_def barrier_image_def)

lemma barrier_image_run:
  "FindLargestConnected 1 3 barrier_image =
     Some (Inr 1, \<lparr>rows_of = 1, cols_of = 3, data_of = [- 1, - 1, - 1]\<rparr>)"
  by code_simp

text \<open>
  C1. For an image that satisfies the class invariant and whose cells all hold values in
  \<open>0..255\<close>, FindLargestConnected (called with the dimensions of the image) returns, and
  its result is the largest size of a region of 4-connected cells of equal value.
\<close>

theorem FindLargestConnected_largest_region:
  assumes "Image_inv img" "\<forall>p \<in> cells img. 0 \<le> pix img p \<and> pix img p \<le> 255"
  shows "\<exists>img'. FindLargestConnected (rows_of img) (cols_of img) img =
                  Some (Inr (largest_region img), img')"
proof -
  have nb: "\<not> bad_pixel img" using assms(2) by (fastforce simp: bad_pixel_def)
  have "{p \<in> cells img. pix img p \<noteq> - 1} = cells img" using assms(2) by fastforce
  then have l: "largest_unmarked_region img = largest_region img"
    by (simp add: largest_unmarked_region_def largest_region_def)
  obtain res img' where
    r: "FindLargestConnected (rows_of img) (cols_of img) img = Some (res, img')"
    and c: "case res of
              Inl e \<Rightarrow> e = UndefinedBehaviour \<and> bad_pixel img
            | Inr n \<Rightarrow> \<not> bad_pixel img \<and> n = largest_unmarked_region img"
    using FindLargestConnected_correct [OF assms(1)] by blast
  show ?thesis
  proof (cases res)
    case (Inl e)
    then show ?thesis using c nb by simp
  next
    case (Inr n)
    then show ?thesis using r c l by simp
  qed
qed

theorem FindLargestConnected_largest_region_witness:
  "Image_inv myImage \<and> set (data_of myImage) \<subseteq> {0..255} \<and>
   FindLargestConnected 5 6 myImage =
     Some (Inr (largest_region myImage),
           \<lparr>rows_of = 5, cols_of = 6, data_of = replicate 30 (- 1)\<rparr>) \<and>
   largest_region myImage = 9"
proof -
  have s: "set (data_of myImage) \<subseteq> {0..255}" by (simp add: myImage_def main_data_def)
  have p: "\<forall>p \<in> cells myImage. 0 \<le> pix myImage p \<and> pix myImage p \<le> 255"
    using pix_in_data [OF myImage_inv] s by fastforce
  have d: "rows_of myImage = 5" "cols_of myImage = 6" by (simp_all add: myImage_def)
  show ?thesis
    using FindLargestConnected_largest_region [OF myImage_inv p] s myImage_inv
    unfolding d myImage_run by simp
qed

text \<open>
  C3. On the grid of \<open>R \<ge> 1\<close> rows and \<open>C \<ge> 1\<close> columns whose cells all hold the same
  value \<open>v\<close> in \<open>0..255\<close>, FindLargestConnected returns \<open>R * C\<close>.
\<close>

theorem FindLargestConnected_uniform:
  assumes "1 \<le> R" "1 \<le> C" "0 \<le> v" "v \<le> 255"
  shows "\<exists>img'. FindLargestConnected R C (uniform_image R C v) = Some (Inr (R * C), img')"
proof -
  let ?img = "uniform_image R C v"
  have nn: "0 \<le> R" "0 \<le> C" using assms(1,2) by simp_all
  have inv: "Image_inv ?img" using nn by (rule uniform_image_inv)
  have d: "rows_of ?img = R" "cols_of ?img = C" by (simp_all add: uniform_image_def)
  have nb: "\<not> bad_pixel ?img"
    using uniform_image_pix [OF nn] assms(3,4) by (auto simp: bad_pixel_def)
  have l: "largest_unmarked_region ?img = R * C"
    using assms(1,2) by (rule uniform_image_largest) (use assms(3) in simp)
  obtain res img' where
    r: "FindLargestConnected R C ?img = Some (res, img')"
    and c: "case res of
              Inl e \<Rightarrow> e = UndefinedBehaviour \<and> bad_pixel ?img
            | Inr n \<Rightarrow> \<not> bad_pixel ?img \<and> n = largest_unmarked_region ?img"
    using FindLargestConnected_correct [OF inv] unfolding d by blast
  show ?thesis
  proof (cases res)
    case (Inl e)
    then show ?thesis using c nb by simp
  next
    case (Inr n)
    then show ?thesis using r c l by simp
  qed
qed

theorem FindLargestConnected_uniform_witness:
  "(1::int) \<le> 2 \<and> (1::int) \<le> 3 \<and> (0::int) \<le> 7 \<and> (7::int) \<le> 255 \<and>
   (\<exists>img'. FindLargestConnected 2 3 (uniform_image 2 3 7) = Some (Inr 6, img'))"
  using FindLargestConnected_uniform [of 2 3 7] by simp

text \<open>
  C10. A cell that holds \<open>-1\<close> when FindLargestConnected starts is skipped: for an image
  whose cells hold \<open>-1\<close> or a value in \<open>0..255\<close> the call returns without error, and its
  result is the largest size of a region of a cell that does not hold \<open>-1\<close>. Such a
  region contains no cell holding \<open>-1\<close>, so these cells are not counted and separate
  the regions around them.
\<close>

theorem FindLargestConnected_skips_marker:
  assumes "Image_inv img" "\<forall>p \<in> cells img. - 1 \<le> pix img p \<and> pix img p \<le> 255"
  shows "(\<exists>img'. FindLargestConnected (rows_of img) (cols_of img) img =
                   Some (Inr (largest_unmarked_region img), img')) \<and>
         (\<forall>p \<in> cells img. pix img p \<noteq> - 1 \<longrightarrow> (\<forall>q \<in> region img p. pix img q \<noteq> - 1))"
proof
  have nb: "\<not> bad_pixel img" using assms(2) by (fastforce simp: bad_pixel_def)
  obtain res img' where
    r: "FindLargestConnected (rows_of img) (cols_of img) img = Some (res, img')"
    and c: "case res of
              Inl e \<Rightarrow> e = UndefinedBehaviour \<and> bad_pixel img
            | Inr n \<Rightarrow> \<not> bad_pixel img \<and> n = largest_unmarked_region img"
    using FindLargestConnected_correct [OF assms(1)] by blast
  show "\<exists>img'. FindLargestConnected (rows_of img) (cols_of img) img =
                 Some (Inr (largest_unmarked_region img), img')"
  proof (cases res)
    case (Inl e)
    then show ?thesis using c nb by simp
  next
    case (Inr n)
    then show ?thesis using r c by simp
  qed
  show "\<forall>p \<in> cells img. pix img p \<noteq> - 1 \<longrightarrow> (\<forall>q \<in> region img p. pix img q \<noteq> - 1)"
    using region_pix by fastforce
qed

theorem FindLargestConnected_skips_marker_witness:
  "Image_inv barrier_image \<and> set (data_of barrier_image) \<subseteq> {- 1..255} \<and>
   FindLargestConnected 1 3 barrier_image =
     Some (Inr 1, \<lparr>rows_of = 1, cols_of = 3, data_of = [- 1, - 1, - 1]\<rparr>) \<and>
   largest_unmarked_region barrier_image = 1"
proof -
  have s: "set (data_of barrier_image) \<subseteq> {- 1..255}" by (simp add: barrier_image_def)
  have p: "\<forall>p \<in> cells barrier_image. - 1 \<le> pix barrier_image p \<and> pix barrier_image p \<le> 255"
    using pix_in_data [OF barrier_image_inv] s by fastforce
  have d: "rows_of barrier_image = 1" "cols_of barrier_image = 3"
    by (simp_all add: barrier_image_def)
  show ?thesis
    using FindLargestConnected_skips_marker [OF barrier_image_inv p] s barrier_image_inv
    unfolding d barrier_image_run by simp
qed

lemma newly_marked:
  assumes "marked img X img'" "X \<subseteq> cells img" "\<And>p. p \<in> X \<Longrightarrow> pix img p \<noteq> - 1"
  shows "{p \<in> cells img. pix img p \<noteq> - 1 \<and> pix img' p = - 1} = X"
proof (intro equalityI subsetI)
  have px: "pix img' p = (if p \<in> X then - 1 else pix img p)" if "p \<in> cells img" for p
    using assms(1) that unfolding marked_def by blast
  {
    fix p assume "p \<in> {p \<in> cells img. pix img p \<noteq> - 1 \<and> pix img' p = - 1}"
    then have "p \<in> cells img" "pix img p \<noteq> - 1" "pix img' p = - 1" by simp_all
    then show "p \<in> X" using px [of p] by (cases "p \<in> X") simp_all
  next
    fix p assume p: "p \<in> X"
    then have c: "p \<in> cells img" using assms(2) by blast
    from px [OF c] p assms(3) [OF p] c
    show "p \<in> {p \<in> cells img. pix img p \<noteq> - 1 \<and> pix img' p = - 1}" by simp
  }
qed

lemma card_newly_marked_le:
  "card {p \<in> cells img. pix img p \<noteq> - 1 \<and> pix img' p = - 1} \<le> card (cells img)"
  by (intro card_mono finite_cells) auto

text \<open>At a cell that holds \<open>-1\<close> the outer scan goes on to the next column and changes
  neither the image nor the counters.\<close>

lemma FindLargestConnected_cols_skip:
  assumes "Image_inv img" "(row, col) \<in> cells img" "pix img (row, col) = - 1"
  shows "FindLargestConnected_cols (rows_of img) (cols_of img) img cfp row col =
         FindLargestConnected_cols (rows_of img) (cols_of img) img cfp row (col + 1)"
proof -
  have "col < cols_of img" using assms(2) by (simp add: cells_def)
  then show ?thesis
    using assms(3)
    by (subst FindLargestConnected_cols.simps) (simp add: readAt_cell [OF assms(1,2)])
qed

text \<open>At a cell that holds a value in \<open>0..255\<close> the outer scan marks the region of the
  cell, offers the number of cells it has marked to the counter of the value, and goes
  on to the next column.\<close>

lemma FindLargestConnected_cols_seed:
  assumes "Image_inv img" "(row, col) \<in> cells img"
    and "0 \<le> pix img (row, col)" "pix img (row, col) < 256"
  shows "\<exists>img4. marks_only img img4 \<and> pix img4 (row, col) = - 1 \<and>
           (let n = int (card {p \<in> cells img. pix img p \<noteq> - 1 \<and> pix img4 p = - 1})
            in 1 \<le> n \<and>
               FindLargestConnected_cols (rows_of img) (cols_of img) img cfp row col =
               FindLargestConnected_cols (rows_of img) (cols_of img) img4
                 (if n > cfp ! nat (pix img (row, col))
                  then cfp[nat (pix img (row, col)) := n] else cfp)
                 row (col + 1))"
proof -
  let ?p = "(row, col)"
  let ?v = "pix img ?p"
  let ?R = "region img ?p"
  have ne: "?v \<noteq> - 1" using assms(3) by simp
  obtain img1 img2 where w: "writeAt img row col (- 1) = (Inr (), img1)"
    and r: "CheckNextPixel (rows_of img) (cols_of img) img1 row col ?v 1 =
              Some (Inr (int (card ?R)), img2)"
    and m2: "marked img ?R img2"
    using seed_correct [OF assms(1,2) ne] by blast
  have "marks_only img img1" using w by (rule writeAt_marks_only)
  moreover have "marks_only img1 img2"
    using CheckNextPixel_safe [OF r] by (simp add: safe_step_def)
  ultimately have mo: "marks_only img img2" by (rule marks_only_trans)
  have Rc: "?R \<subseteq> cells img" using assms(2) by (rule region_subset_cells)
  have "{p \<in> cells img. pix img p \<noteq> - 1 \<and> pix img2 p = - 1} = ?R"
    using m2 Rc by (rule newly_marked) (simp add: region_pix ne)
  then have n: "int (card {p \<in> cells img. pix img p \<noteq> - 1 \<and> pix img2 p = - 1}) =
                int (card ?R)"
    by simp
  have "?p \<in> ?R" by (rule region_self)
  moreover have "finite ?R" using assms(2) by (rule finite_region)
  ultimately have pos: "1 \<le> int (card ?R)"
    by (metis One_nat_def Suc_leI card_gt_0_iff empty_iff of_nat_1 of_nat_le_iff)
  have px: "pix img2 ?p = - 1"
    using m2 assms(2) \<open>?p \<in> ?R\<close> unfolding marked_def by simp
  have "col < cols_of img" using assms(2) by (simp add: cells_def)
  then have eq: "FindLargestConnected_cols (rows_of img) (cols_of img) img cfp row col =
        FindLargestConnected_cols (rows_of img) (cols_of img) img2
          (if int (card ?R) > cfp ! nat ?v then cfp[nat ?v := int (card ?R)] else cfp)
          row (col + 1)"
    using ne assms(3,4)
    by (subst FindLargestConnected_cols.simps) (simp add: readAt_cell [OF assms(1,2)] w r)
  show ?thesis
  proof (intro exI [of _ img2] conjI)
    show "marks_only img img2" by (rule mo)
    show "pix img2 (row, col) = - 1" by (rule px)
    show "let n = int (card {p \<in> cells img. pix img p \<noteq> - 1 \<and> pix img2 p = - 1})
          in 1 \<le> n \<and>
             FindLargestConnected_cols (rows_of img) (cols_of img) img cfp row col =
             FindLargestConnected_cols (rows_of img) (cols_of img) img2
               (if n > cfp ! nat (pix img (row, col))
                then cfp[nat (pix img (row, col)) := n] else cfp)
               row (col + 1)"
      unfolding Let_def n by (rule conjI [OF pos eq])
  qed
qed

text \<open>
  C8. A cell goes from unvisited to visited at most once and never back. Whatever
  CheckNextPixel and FindLargestConnected are called with, if the call returns (normally
  or with an exception) then every element of the backing sequence is either unchanged
  or \<open>-1\<close>; so an element that was \<open>-1\<close> is still \<open>-1\<close>. When CheckNextPixel is called
  with a value other than \<open>-1\<close>, the dimensions of the image and a count that leaves room
  for every cell below \<open>2 ^ 31\<close> (the scan calls it with 1), it returns and the count has
  grown, without overflow, by exactly the number of cells that went from a value other
  than \<open>-1\<close> to \<open>-1\<close>: no marked cell is counted. In the outer scan, a cell that holds
  \<open>-1\<close> is skipped with image and counters unchanged, and a cell that holds a value in
  \<open>0..255\<close> offers to the counter of its value exactly the number of cells that the
  step has marked, the cell itself among them.
\<close>

theorem cells_only_become_marked:
  "(CheckNextPixel rows cols img cr cc v count = Some (res, img') \<longrightarrow> marks_only img img') \<and>
   (FindLargestConnected rows cols img = Some (res2, img2) \<longrightarrow> marks_only img img2) \<and>
   (Image_inv img \<and> v \<noteq> - 1 \<and> int_range count \<and> count + int (card (cells img)) < 2 ^ 31 \<longrightarrow>
      (\<exists>img3. CheckNextPixel (rows_of img) (cols_of img) img cr cc v count =
         Some (Inr (count + int (card {p \<in> cells img. pix img p \<noteq> - 1 \<and> pix img3 p = - 1})),
               img3) \<and>
         int_range (count + int (card {p \<in> cells img. pix img p \<noteq> - 1 \<and> pix img3 p = - 1})))) \<and>
   (Image_inv img \<and> (row, col) \<in> cells img \<and> pix img (row, col) = - 1 \<longrightarrow>
      FindLargestConnected_cols (rows_of img) (cols_of img) img cfp row col =
      FindLargestConnected_cols (rows_of img) (cols_of img) img cfp row (col + 1)) \<and>
   (Image_inv img \<and> (row, col) \<in> cells img \<and> 0 \<le> pix img (row, col) \<and>
    pix img (row, col) < 256 \<and> int (card (cells img)) < 2 ^ 31 \<longrightarrow>
      (\<exists>img4. marks_only img img4 \<and> pix img4 (row, col) = - 1 \<and>
         (let n = int (card {p \<in> cells img. pix img p \<noteq> - 1 \<and> pix img4 p = - 1})
          in 1 \<le> n \<and> n < 2 ^ 31 \<and>
             FindLargestConnected_cols (rows_of img) (cols_of img) img cfp row col =
             FindLargestConnected_cols (rows_of img) (cols_of img) img4
               (if n > cfp ! nat (pix img (row, col))
                then cfp[nat (pix img (row, col)) := n] else cfp)
               row (col + 1))))"
proof (intro conjI impI)
  assume "CheckNextPixel rows cols img cr cc v count = Some (res, img')"
  then have "safe_step rows cols img (res, img')" by (rule CheckNextPixel_safe)
  then show "marks_only img img'" by (simp add: safe_step_def)
next
  assume "FindLargestConnected rows cols img = Some (res2, img2)"
  then have "safe_step rows cols img (res2, img2)" by (rule FindLargestConnected_safe)
  then show "marks_only img img2" by (simp add: safe_step_def)
next
  assume a: "Image_inv img \<and> v \<noteq> - 1 \<and> int_range count \<and>
             count + int (card (cells img)) < 2 ^ 31"
  let ?X = "reach (value_cells img v) (nbs_from (cr, cc) 0)"
  obtain img3 where
    r: "CheckNextPixel_loop (rows_of img) (cols_of img) img cr cc v count 0 =
          Some (Inr (count + int (card ?X)), img3)"
    and m: "marked img ?X img3"
    using CheckNextPixel_loop_correct [of img v cr cc count 0] a by blast
  have X: "p \<in> cells img \<and> pix img p = v" if "p \<in> ?X" for p
    using that reach_subset [of "value_cells img v"] by (auto simp: value_cells_def)
  have e: "{p \<in> cells img. pix img p \<noteq> - 1 \<and> pix img3 p = - 1} = ?X"
    using m by (rule newly_marked) (use X a in auto)
  have "card ?X \<le> card (cells img)"
    using card_newly_marked_le [of img img3] unfolding e .
  then have "int_range (count + int (card ?X))"
    using a by (simp add: int_range_def)
  then show "\<exists>img3. CheckNextPixel (rows_of img) (cols_of img) img cr cc v count =
         Some (Inr (count + int (card {p \<in> cells img. pix img p \<noteq> - 1 \<and> pix img3 p = - 1})),
               img3) \<and>
         int_range (count + int (card {p \<in> cells img. pix img p \<noteq> - 1 \<and> pix img3 p = - 1}))"
    using r e unfolding CheckNextPixel_def by auto
next
  assume "Image_inv img \<and> (row, col) \<in> cells img \<and> pix img (row, col) = - 1"
  then show "FindLargestConnected_cols (rows_of img) (cols_of img) img cfp row col =
      FindLargestConnected_cols (rows_of img) (cols_of img) img cfp row (col + 1)"
    by (intro FindLargestConnected_cols_skip) simp_all
next
  assume a: "Image_inv img \<and> (row, col) \<in> cells img \<and> 0 \<le> pix img (row, col) \<and>
             pix img (row, col) < 256 \<and> int (card (cells img)) < 2 ^ 31"
  then obtain img4 where mo: "marks_only img img4" and px: "pix img4 (row, col) = - 1"
    and s: "let n = int (card {p \<in> cells img. pix img p \<noteq> - 1 \<and> pix img4 p = - 1})
            in 1 \<le> n \<and>
               FindLargestConnected_cols (rows_of img) (cols_of img) img cfp row col =
               FindLargestConnected_cols (rows_of img) (cols_of img) img4
                 (if n > cfp ! nat (pix img (row, col))
                  then cfp[nat (pix img (row, col)) := n] else cfp)
                 row (col + 1)"
    using FindLargestConnected_cols_seed [of img row col cfp] by blast
  have "int (card {p \<in> cells img. pix img p \<noteq> - 1 \<and> pix img4 p = - 1}) < 2 ^ 31"
    using card_newly_marked_le [of img img4] a by linarith
  then show "\<exists>img4. marks_only img img4 \<and> pix img4 (row, col) = - 1 \<and>
         (let n = int (card {p \<in> cells img. pix img p \<noteq> - 1 \<and> pix img4 p = - 1})
          in 1 \<le> n \<and> n < 2 ^ 31 \<and>
             FindLargestConnected_cols (rows_of img) (cols_of img) img cfp row col =
             FindLargestConnected_cols (rows_of img) (cols_of img) img4
               (if n > cfp ! nat (pix img (row, col))
                then cfp[nat (pix img (row, col)) := n] else cfp)
               row (col + 1))"
    using mo px s unfolding Let_def by blast
qed

theorem cells_only_become_marked_witness:
  "marks_only myImage \<lparr>rows_of = 5, cols_of = 6, data_of = replicate 30 (- 1)\<rparr> \<and>
   (\<exists>img3. CheckNextPixel 5 6 myImage 0 0 1 1 =
      Some (Inr (1 + int (card {p \<in> cells myImage. pix myImage p \<noteq> - 1 \<and> pix img3 p = - 1})),
            img3)) \<and>
   FindLargestConnected_cols 1 3 barrier_image (replicate 256 0) 0 1 =
   FindLargestConnected_cols 1 3 barrier_image (replicate 256 0) 0 2 \<and>
   (\<exists>img4. marks_only myImage img4 \<and> pix img4 (0, 0) = - 1)"
proof -
  have d: "rows_of myImage = 5" "cols_of myImage = 6" by (simp_all add: myImage_def)
  have db: "rows_of barrier_image = 1" "cols_of barrier_image = 3"
    by (simp_all add: barrier_image_def)
  have c: "int (card (cells myImage)) = 30" by (simp add: cells_def myImage_def)
  have p0: "(0, 0) \<in> cells myImage" "pix myImage (0, 0) = 1"
    by (simp_all add: cells_def pix_def myImage_def main_data_def)
  have pb: "(0, 1) \<in> cells barrier_image" "pix barrier_image (0, 1) = - 1"
    by (simp_all add: cells_def pix_def barrier_image_def)
  have r: "int_range 1" by (simp add: int_range_def)
  have 1: "marks_only myImage \<lparr>rows_of = 5, cols_of = 6, data_of = replicate 30 (- 1)\<rparr>"
    using cells_only_become_marked [THEN conjunct2, THEN conjunct1, of 5 6 myImage "Inr 9"
        "\<lparr>rows_of = 5, cols_of = 6, data_of = replicate 30 (- 1)\<rparr>"]
      myImage_run
    by simp
  have 2: "\<exists>img3. CheckNextPixel 5 6 myImage 0 0 1 1 =
      Some (Inr (1 + int (card {p \<in> cells myImage. pix myImage p \<noteq> - 1 \<and> pix img3 p = - 1})),
            img3)"
    using cells_only_become_marked [THEN conjunct2, THEN conjunct2, THEN conjunct1,
        of myImage 1 1 0 0]
      myImage_inv r c
    unfolding d by auto
  have 3: "FindLargestConnected_cols 1 3 barrier_image (replicate 256 0) 0 1 =
           FindLargestConnected_cols 1 3 barrier_image (replicate 256 0) 0 2"
    using cells_only_become_marked [THEN conjunct2, THEN conjunct2, THEN conjunct2,
        THEN conjunct1, of barrier_image 0 1 "replicate 256 0"]
      barrier_image_inv pb
    unfolding db by simp
  have 4: "\<exists>img4. marks_only myImage img4 \<and> pix img4 (0, 0) = - 1"
    using cells_only_become_marked [THEN conjunct2, THEN conjunct2, THEN conjunct2,
        THEN conjunct2, of myImage 0 0]
      myImage_inv p0 c
    by auto
  show ?thesis using 1 2 3 4 by blast
qed

text \<open>
  C9. Called with dimensions that do not exceed those of the image, neither
  FindLargestConnected nor CheckNextPixel ends in OutOfRange: every coordinate passed to
  At has been checked against \<open>rows\<close> and \<open>cols\<close>. With the dimensions of an image that
  satisfies the class invariant, FindLargestConnected returns, and not with OutOfRange.
\<close>

theorem scan_never_OutOfRange:
  assumes "rows \<le> rows_of img" "cols \<le> cols_of img"
  shows "FindLargestConnected rows cols img \<noteq> Some (Inl OutOfRange, img') \<and>
         CheckNextPixel rows cols img cr cc v count \<noteq> Some (Inl OutOfRange, img') \<and>
         (Image_inv img \<and> rows = rows_of img \<and> cols = cols_of img \<longrightarrow>
            (\<exists>res img2. FindLargestConnected rows cols img = Some (res, img2) \<and>
                         res \<noteq> Inl OutOfRange))"
proof (intro conjI impI)
  show "FindLargestConnected rows cols img \<noteq> Some (Inl OutOfRange, img')"
  proof
    assume "FindLargestConnected rows cols img = Some (Inl OutOfRange, img')"
    then have "safe_step rows cols img (Inl OutOfRange :: error + int, img')"
      by (rule FindLargestConnected_safe)
    then show False using assms by (simp add: safe_step_def)
  qed
  show "CheckNextPixel rows cols img cr cc v count \<noteq> Some (Inl OutOfRange, img')"
  proof
    assume "CheckNextPixel rows cols img cr cc v count = Some (Inl OutOfRange, img')"
    then have "safe_step rows cols img (Inl OutOfRange :: error + int, img')"
      by (rule CheckNextPixel_safe)
    then show False using assms by (simp add: safe_step_def)
  qed
next
  assume a: "Image_inv img \<and> rows = rows_of img \<and> cols = cols_of img"
  then obtain res img2 where r: "FindLargestConnected rows cols img = Some (res, img2)"
    using FindLargestConnected_correct [of img] by auto
  then have "safe_step rows cols img (res, img2)" by (rule FindLargestConnected_safe)
  then have "res \<noteq> Inl OutOfRange" using assms by (simp add: safe_step_def)
  with r show "\<exists>res img2. FindLargestConnected rows cols img = Some (res, img2) \<and>
                 res \<noteq> Inl OutOfRange"
    by blast
qed

theorem scan_never_OutOfRange_witness:
  "(5::int) \<le> rows_of myImage \<and> (6::int) \<le> cols_of myImage \<and>
   FindLargestConnected 5 6 myImage \<noteq> Some (Inl OutOfRange, myImage) \<and>
   CheckNextPixel 5 6 myImage 0 0 1 0 \<noteq> Some (Inl OutOfRange, myImage) \<and>
   (\<exists>res img2. FindLargestConnected 5 6 myImage = Some (res, img2) \<and> res \<noteq> Inl OutOfRange)"
proof -
  have d: "rows_of myImage = 5" "cols_of myImage = 6" by (simp_all add: myImage_def)
  show ?thesis
    using scan_never_OutOfRange [of 5 myImage 6 myImage 0 0 1 0] myImage_inv
    by (simp add: d)
qed

end
